theory Spec2Isabelle
  imports Main "HOL-Library.Word"
begin

section \<open>Recipe Finder: bytes and C strings\<close>

text \<open>
  The program is a single C file, \<^verbatim>\<open>src/Recipe_Finder.c\<close>. A C string is modelled as
  a \<^typ>\<open>string\<close>: the list of its bytes before the terminating NUL. The character
  classes are those of the C locale (and of GLib's \<^verbatim>\<open>g_ascii_*\<close> functions), which only
  look at 7-bit ASCII.
\<close>

text \<open>The bytes the program compares against: apostrophe, double quote, space, and the
  unit separator \<^verbatim>\<open>\x1f\<close> that \<^verbatim>\<open>add_link\<close> puts between a title and its URL.\<close>

abbreviation SQ :: char where "SQ \<equiv> CHR 0x27"
abbreviation DQ :: char where "DQ \<equiv> CHR 0x22"
abbreviation SP :: char where "SP \<equiv> CHR 0x20"
abbreviation US :: char where "US \<equiv> CHR 0x1F"

definition isupper_c :: "char \<Rightarrow> bool" where
  "isupper_c c = (let n = (of_char c :: nat) in 65 \<le> n \<and> n \<le> 90)"

definition islower_c :: "char \<Rightarrow> bool" where
  "islower_c c = (let n = (of_char c :: nat) in 97 \<le> n \<and> n \<le> 122)"

definition isalpha_c :: "char \<Rightarrow> bool" where
  "isalpha_c c = (isupper_c c \<or> islower_c c)"

definition isdigit_c :: "char \<Rightarrow> bool" where
  "isdigit_c c = (let n = (of_char c :: nat) in 48 \<le> n \<and> n \<le> 57)"

definition isalnum_c :: "char \<Rightarrow> bool" where
  "isalnum_c c = (isalpha_c c \<or> isdigit_c c)"

definition tolower_c :: "char \<Rightarrow> char" where
  "tolower_c c = (if isupper_c c then char_of ((of_char c :: nat) + 32) else c)"

definition toupper_c :: "char \<Rightarrow> char" where
  "toupper_c c = (if islower_c c then char_of ((of_char c :: nat) - 32) else c)"

text \<open>\<^verbatim>\<open>g_ascii_isspace\<close>: space, tab, line feed, form feed, carriage return.\<close>

definition g_ascii_isspace :: "char \<Rightarrow> bool" where
  "g_ascii_isspace c = (c = SP \<or> c = CHR 0x09 \<or> c = CHR 0x0A \<or> c = CHR 0x0C \<or> c = CHR 0x0D)"

text \<open>\<^verbatim>\<open>g_ascii_strdown(s, -1)\<close>: a lower-cased copy.\<close>

definition g_ascii_strdown :: "string \<Rightarrow> string" where
  "g_ascii_strdown s = map tolower_c s"

text \<open>\<^verbatim>\<open>g_strstrip\<close>: \<^verbatim>\<open>g_strchug\<close> drops the leading white space, \<^verbatim>\<open>g_strchomp\<close> the
  trailing white space.\<close>

definition g_strstrip :: "string \<Rightarrow> string" where
  "g_strstrip s = rev (dropWhile g_ascii_isspace (rev (dropWhile g_ascii_isspace s)))"

text \<open>\<^verbatim>\<open>strstr(h, n) != NULL\<close>: \<open>n\<close> occurs in \<open>h\<close> as a contiguous block.\<close>

fun strstr :: "string \<Rightarrow> string \<Rightarrow> bool" where
  "strstr [] n = (n = [])"
| "strstr (c # h) n = (take (length n) (c # h) = n \<or> strstr h n)"

section \<open>Query interpretation\<close>

datatype QuoteStatus = QUOTE_NONE | QUOTE_SINGLE | QUOTE_PAIR

text \<open>
  \<^verbatim>\<open>detect_quote_status\<close>, lines 2387-2406. The \<^verbatim>\<open>for\<close> loop walks the bytes of the
  search term and counts apostrophes and double quotes in two \<^verbatim>\<open>int\<close> counters. The
  counters are modelled as \<^typ>\<open>int\<close>: each is bounded by the length of the text of the
  search entry, far below \<open>2^31\<close>.
\<close>

fun count_quotes :: "string \<Rightarrow> int \<times> int \<Rightarrow> int \<times> int" where
  "count_quotes [] (single_quotes, double_quotes) = (single_quotes, double_quotes)"
| "count_quotes (c # p) (single_quotes, double_quotes) =
     (if c = SQ then count_quotes p (single_quotes + 1, double_quotes)
      else if c = DQ then count_quotes p (single_quotes, double_quotes + 1)
      else count_quotes p (single_quotes, double_quotes))"

definition detect_quote_status :: "string \<Rightarrow> QuoteStatus" where
  "detect_quote_status search_term =
     (let (single_quotes, double_quotes) = count_quotes search_term (0, 0)
      in if (single_quotes > 0 \<and> single_quotes mod 2 = 0) \<or>
            (double_quotes > 0 \<and> double_quotes mod 2 = 0) then QUOTE_PAIR
         else if single_quotes > 0 \<or> double_quotes > 0 then QUOTE_SINGLE
         else QUOTE_NONE)"

text \<open>
  \<^verbatim>\<open>normalize_quotes_utf8\<close>, lines 2353-2380: rewrites, in place, each UTF-8 curly
  quote (\<^verbatim>\<open>E2 80 98\<close>, \<^verbatim>\<open>E2 80 99\<close>, \<^verbatim>\<open>E2 80 9C\<close>, \<^verbatim>\<open>E2 80 9D\<close>) into the ASCII
  quote followed by two spaces. The loop then moves one byte on, over the two spaces it
  has just written.
\<close>

fun normalize_quotes_utf8 :: "string \<Rightarrow> string" where
  "normalize_quotes_utf8 (c0 # c1 # c2 # str) =
     (if c0 = CHR 0xE2 \<and> c1 = CHR 0x80 \<and> (c2 = CHR 0x98 \<or> c2 = CHR 0x99)
        then SQ # normalize_quotes_utf8 (SP # SP # str)
      else if c0 = CHR 0xE2 \<and> c1 = CHR 0x80 \<and> (c2 = CHR 0x9C \<or> c2 = CHR 0x9D)
        then DQ # normalize_quotes_utf8 (SP # SP # str)
      else c0 # normalize_quotes_utf8 (c1 # c2 # str))"
| "normalize_quotes_utf8 (c # str) = c # normalize_quotes_utf8 str"
| "normalize_quotes_utf8 [] = []"

text \<open>
  \<^verbatim>\<open>initialize_on_search\<close>, lines 3160-3224, is the only caller of
  \<^verbatim>\<open>detect_quote_status\<close>: it passes the text of the search entry as it is and stores
  the result in \<^verbatim>\<open>w->quote_status\<close>. An empty entry starts no search.
\<close>

definition initialize_on_search :: "string \<Rightarrow> QuoteStatus option" where
  "initialize_on_search q = (if q = [] then None else Some (detect_quote_status q))"

text \<open>
  \<^verbatim>\<open>extract_quoted_phrases\<close>, lines 2303-2343. The query is copied and its curly
  quotes are normalised. The \<^verbatim>\<open>while\<close> loop looks for a quote character, searches the
  closing quote of the same kind with \<^verbatim>\<open>strchr\<close>, and stops at a quote that is never
  closed. A non-empty text between two quotes is stripped, lower-cased and appended to the
  list; the scan goes on after the closing quote.
\<close>

function extract_phrases_loop :: "string \<Rightarrow> string list" where
  "extract_phrases_loop [] = []"
| "extract_phrases_loop (c # p) =
     (if c = DQ \<or> c = SQ then
        (if c \<in> set p then
           (let start = takeWhile (\<lambda>x. x \<noteq> c) p;
                after_end = tl (dropWhile (\<lambda>x. x \<noteq> c) p)
            in (if start \<noteq> [] then [g_ascii_strdown (g_strstrip start)] else [])
               @ extract_phrases_loop after_end)
         else [])
      else extract_phrases_loop p)"
  by pat_completeness auto
termination
proof (relation "measure length")
  fix c :: char and p x xa
  assume "xa = tl (dropWhile (\<lambda>x. x \<noteq> c) p)"
  moreover have "length (tl (dropWhile (\<lambda>x. x \<noteq> c) p)) \<le> length p"
    using length_dropWhile_le [of "\<lambda>x. x \<noteq> c" p] by simp
  ultimately show "(xa, c # p) \<in> measure length" by simp
qed simp_all

definition extract_quoted_phrases :: "string \<Rightarrow> string list" where
  "extract_quoted_phrases search_term = extract_phrases_loop (normalize_quotes_utf8 search_term)"

text \<open>
  The stop words, \<^verbatim>\<open>is_stop_word\<close> (lines 2433-2447), and
  \<^verbatim>\<open>tokenize_and_filter_stop_words\<close> (lines 2464-2485). \<^verbatim>\<open>g_ascii_strcasecmp\<close>
  returns 0 exactly when the two strings are equal up to ASCII case. The successive calls of
  \<^verbatim>\<open>strtok_r\<close> with the delimiter \<^verbatim>\<open>" "\<close> skip the spaces before a token and cut the
  token at the next space.
\<close>

definition stop_words :: "string list" where
  "stop_words = [''a'', ''an'', ''the'', ''and'', ''or'', ''with'', ''of'', ''in'', ''on'',
                 ''at'', ''to'', ''for'', ''by'']"

definition is_stop_word :: "string \<Rightarrow> bool" where
  "is_stop_word word = list_ex (\<lambda>sw. g_ascii_strdown word = g_ascii_strdown sw) stop_words"

function strtok_tokens :: "string \<Rightarrow> string list" where
  "strtok_tokens s =
     (let s1 = dropWhile (\<lambda>c. c = SP) s
      in if s1 = [] then []
         else takeWhile (\<lambda>c. c \<noteq> SP) s1 # strtok_tokens (dropWhile (\<lambda>c. c \<noteq> SP) s1))"
  by pat_completeness auto
termination
proof (relation "measure length")
  fix s x :: string
  assume x: "x = dropWhile (\<lambda>c. c = SP) s" and ne: "x \<noteq> []"
  then have "hd x \<noteq> SP" using hd_dropWhile [of "\<lambda>c. c = SP" s] by simp
  with ne have "length (dropWhile (\<lambda>c. c \<noteq> SP) x) < length x"
    by (cases x) (simp_all add: length_dropWhile_le less_Suc_eq_le)
  moreover have "length x \<le> length s" using x by (simp add: length_dropWhile_le)
  ultimately show "(dropWhile (\<lambda>c. c \<noteq> SP) x, s) \<in> measure length" by simp
qed simp

declare strtok_tokens.simps [simp del]

definition tokenize_and_filter_stop_words :: "string \<Rightarrow> string list" where
  "tokenize_and_filter_stop_words phrase =
     filter (\<lambda>token. \<not> is_stop_word token) (strtok_tokens (g_ascii_strdown phrase))"

text \<open>
  The two \<^verbatim>\<open>GString\<close> loops of \<^verbatim>\<open>show_results\<close> (lines 2787-2791 and 2798-2802):
  a space is appended before an item only when the builder is not empty.
\<close>

definition join_spaces :: "string list \<Rightarrow> string" where
  "join_spaces xs = foldl (\<lambda>builder x. (if builder \<noteq> [] then builder @ [SP] else builder) @ x) [] xs"


section \<open>Match ranking\<close>

text \<open>
  \<^verbatim>\<open>show_results\<close>, lines 2756-2881. The model returns the queue of \<^verbatim>\<open>RecipeInfo\<close>
  records that the function hands to the insertion timer; the widgets are not modelled.
  A \<^verbatim>\<open>NULL\<close> \<^verbatim>\<open>GList\<close> is the empty list, a \<^verbatim>\<open>NULL\<close> string is \<open>None\<close>. Each
  entry of \<^verbatim>\<open>links\<close> is a string \<^verbatim>\<open>title \x1f url\<close>; an entry without the separator
  is skipped. The token counters are C \<^verbatim>\<open>int\<close>s, bounded by the length of the query.
\<close>

record RecipeInfo =
  title_ri :: string
  url_ri :: string
  perfect_match :: bool
  partial_match :: bool
  matched_tokens :: int
  total_tokens :: int

definition quoted_phrases_of :: "QuoteStatus \<Rightarrow> string \<Rightarrow> string list" where
  "quoted_phrases_of quote_status search_term =
     (if quote_status = QUOTE_PAIR then extract_quoted_phrases search_term else [])"

definition partial_search_term_of :: "string list \<Rightarrow> string option" where
  "partial_search_term_of quoted_phrases =
     (if quoted_phrases \<noteq> [] then
        (let partial_tokens = tokenize_and_filter_stop_words (join_spaces quoted_phrases)
         in if partial_tokens \<noteq> [] then Some (join_spaces partial_tokens) else None)
      else None)"

definition show_results_entry ::
  "QuoteStatus \<Rightarrow> string list \<Rightarrow> string option \<Rightarrow> string \<Rightarrow> RecipeInfo option" where
  "show_results_entry quote_status quoted_phrases partial_search_term entry =
     (if US \<notin> set entry then None
      else
        (let title = takeWhile (\<lambda>c. c \<noteq> US) entry;
             url = tl (dropWhile (\<lambda>c. c \<noteq> US) entry);
             lower_title = g_ascii_strdown title;
             tokens = (case partial_search_term of
                         Some term \<Rightarrow>
                           if quote_status = QUOTE_PAIR \<and> quoted_phrases \<noteq> []
                           then tokenize_and_filter_stop_words term else []
                       | None \<Rightarrow> []);
             total_tokens = int (length tokens);
             matched_tokens = int (length (filter (strstr lower_title) tokens));
             perfect_match = (tokens \<noteq> [] \<and> matched_tokens = total_tokens);
             partial_match = (tokens \<noteq> [] \<and> matched_tokens \<noteq> total_tokens \<and> matched_tokens > 0)
         in if quote_status = QUOTE_PAIR \<and> \<not> perfect_match \<and> \<not> partial_match then None
            else Some \<lparr>title_ri = title, url_ri = url, perfect_match = perfect_match,
                        partial_match = partial_match, matched_tokens = matched_tokens,
                        total_tokens = total_tokens\<rparr>))"

fun show_results_loop ::
  "QuoteStatus \<Rightarrow> string list \<Rightarrow> string option \<Rightarrow> string list \<Rightarrow> RecipeInfo list" where
  "show_results_loop quote_status quoted_phrases partial_search_term [] = []"
| "show_results_loop quote_status quoted_phrases partial_search_term (entry # l) =
     (case show_results_entry quote_status quoted_phrases partial_search_term entry of
        None \<Rightarrow> show_results_loop quote_status quoted_phrases partial_search_term l
      | Some ri \<Rightarrow> ri # show_results_loop quote_status quoted_phrases partial_search_term l)"

definition show_results :: "string list \<Rightarrow> string \<Rightarrow> QuoteStatus \<Rightarrow> RecipeInfo list" where
  "show_results links search_term quote_status =
     (let quoted_phrases = quoted_phrases_of quote_status search_term;
          partial_search_term = partial_search_term_of quoted_phrases
      in show_results_loop quote_status quoted_phrases partial_search_term links)"




text \<open>
  The vocabulary of the specification: the decisive tokens of a query are the
  stop-word-filtered tokens of its joined quoted phrases; \<open>matched_count\<close> counts the
  decisive tokens that occur in the lower-cased title.
\<close>

definition decisive_tokens :: "string \<Rightarrow> string list" where
  "decisive_tokens q = tokenize_and_filter_stop_words (join_spaces (extract_quoted_phrases q))"

definition matched_count :: "string list \<Rightarrow> string \<Rightarrow> nat" where
  "matched_count toks ttl = length (filter (\<lambda>tok. strstr (g_ascii_strdown ttl) tok) toks)"

definition retained_ok :: "string \<Rightarrow> RecipeInfo \<Rightarrow> bool" where
  "retained_ok q r =
     (1 \<le> matched_tokens r \<and> matched_tokens r \<le> total_tokens r \<and>
      total_tokens r = int (length (decisive_tokens q)) \<and>
      (perfect_match r \<longleftrightarrow> matched_tokens r = total_tokens r) \<and>
      (partial_match r \<longleftrightarrow> matched_tokens r < total_tokens r))"

section \<open>Search completion\<close>

text \<open>
  \<^verbatim>\<open>search_complete_cb\<close>, lines 3070-3128, decides what the user sees: the filtered
  results, one fallback link to the search URL, or a status message. Only the fields of
  \<^verbatim>\<open>SearchResultData\<close> that the decision reads are modelled; \<open>search_url\<close> is the
  field \<^verbatim>\<open>url\<close>.
\<close>

datatype ui_outcome = ShowResults "RecipeInfo list" | FallbackLink string string | StatusLabel string

record SearchResultData =
  results :: "string list"
  status_message :: "string option"
  success :: bool
  search_url :: "string option"

definition search_complete_cb :: "SearchResultData \<Rightarrow> string \<Rightarrow> QuoteStatus \<Rightarrow> ui_outcome" where
  "search_complete_cb result q quote_status =
     (if success result \<and> results result \<noteq> [] then
        ShowResults (show_results (results result) q quote_status)
      else if search_url result \<noteq> None \<and> results result = [] then
        (case search_url result of
           Some u \<Rightarrow> FallbackLink u ''Matching recipes not found. Click to open the main food website.''
         | None \<Rightarrow> StatusLabel ''Search failed.'')
      else StatusLabel (case status_message result of Some m \<Rightarrow> m | None \<Rightarrow> ''Search failed.''))"

section \<open>Growable response buffer\<close>

text \<open>
  \<^verbatim>\<open>size_t\<close> is modelled as a 64-bit word, so that the arithmetic of the overflow
  check wraps as it does in C. \<^verbatim>\<open>MAX_DOWNLOAD_SIZE\<close> is defined at line 1193, the four
  capacities at lines 661-664.
\<close>

type_synonym size_t = "64 word"

definition SIZE_MAX :: size_t where "SIZE_MAX = - 1"
definition MAX_DOWNLOAD_SIZE :: size_t where "MAX_DOWNLOAD_SIZE = 32 * 1024 * 1024"
definition DEFAULT_MEMORY_PARSER_SIZE :: size_t where "DEFAULT_MEMORY_PARSER_SIZE = 128 * 1024"
definition LOW_CAPACITY_PARSER_RAM_KB :: size_t where "LOW_CAPACITY_PARSER_RAM_KB = 16 * 1024"
definition MID_CAPACITY_PARSER_RAM_KB :: size_t where "MID_CAPACITY_PARSER_RAM_KB = 64 * 1024"
definition HIGH_CAPACITY_PARSER_RAM_KB :: size_t where "HIGH_CAPACITY_PARSER_RAM_KB = 256 * 1024"

abbreviation NUL :: char where "NUL \<equiv> CHR 0x00"

text \<open>
  \<^verbatim>\<open>MemoryBlock\<close>, lines 671-675. The field \<^verbatim>\<open>size\<close> is named \<open>size_mb\<close>. The
  allocated block is a store from offsets to bytes, \<open>None\<close> for the \<^verbatim>\<open>NULL\<close> pointer.
  What the system answers during one call of the write callback is collected in
  \<open>alloc_env\<close>: the result of \<^verbatim>\<open>get_free_memory()\<close>, whether \<^verbatim>\<open>realloc\<close> succeeds, and
  the indeterminate bytes of newly allocated memory.
\<close>

record MemoryBlock =
  data :: "(nat \<Rightarrow> char) option"
  size_mb :: size_t
  capacity :: size_t

record alloc_env =
  free_mem :: size_t
  realloc_ok :: bool
  fresh :: "nat \<Rightarrow> char"

text \<open>
  \<^verbatim>\<open>detect_initial_capacity\<close>, lines 1692-1726. The platform call is not modelled: the
  parameter is the value of \<^verbatim>\<open>total_ram\<close> after it, 0 when the detection failed. The
  result is stored in the global \<^verbatim>\<open>parser_buffer\<close> by \<^verbatim>\<open>main\<close> (line 982).
\<close>

definition detect_initial_capacity :: "size_t \<Rightarrow> size_t" where
  "detect_initial_capacity total_ram =
     (if total_ram = 0 then DEFAULT_MEMORY_PARSER_SIZE
      else if total_ram < push_bit 20 128 then LOW_CAPACITY_PARSER_RAM_KB
      else if total_ram < push_bit 20 512 then MID_CAPACITY_PARSER_RAM_KB
      else HIGH_CAPACITY_PARSER_RAM_KB)"

text \<open>
  The \<^verbatim>\<open>while\<close> loop of \<^verbatim>\<open>memory_write_callback\<close>, lines 1232-1238. Started at 0 it
  would not end, so it is a partial function: \<open>None\<close> stands for a loop that does not
  return.
\<close>

partial_function (option) grow_capacity :: "size_t \<Rightarrow> size_t \<Rightarrow> size_t option" where
  "grow_capacity new_capacity required_size =
     (if new_capacity < required_size then
        (if new_capacity > MAX_DOWNLOAD_SIZE div 2 then Some MAX_DOWNLOAD_SIZE
         else grow_capacity (new_capacity * 2) required_size)
      else Some new_capacity)"

text \<open>
  \<^verbatim>\<open>realloc\<close> keeps the bytes of the old block; \<open>store_chunk\<close> is the end of the
  callback, lines 1295-1299: \<^verbatim>\<open>memcpy\<close>, the new size, the terminating NUL. Copying
  through a \<^verbatim>\<open>NULL\<close> pointer or from beyond the chunk has no defined result
  (\<open>None\<close>).
\<close>

definition realloc :: "(nat \<Rightarrow> char) option \<Rightarrow> size_t \<Rightarrow> (nat \<Rightarrow> char) \<Rightarrow> nat \<Rightarrow> char" where
  "realloc old old_capacity fresh_bytes =
     (case old of
        None \<Rightarrow> fresh_bytes
      | Some d \<Rightarrow> (\<lambda>i. if i < unat old_capacity then d i else fresh_bytes i))"

definition store_chunk :: "string \<Rightarrow> size_t \<Rightarrow> MemoryBlock \<Rightarrow> (size_t \<times> MemoryBlock option) option" where
  "store_chunk contents realsize m =
     (case data m of
        None \<Rightarrow> None
      | Some d \<Rightarrow>
          if length contents < unat realsize then None
          else
            (let copied = (\<lambda>i. if unat (size_mb m) \<le> i \<and> i < unat (size_mb m) + unat realsize
                                then contents ! (i - unat (size_mb m)) else d i);
                 new_size = size_mb m + realsize
             in Some (realsize,
                  Some (m\<lparr>data := Some (copied(unat new_size := NUL)), size_mb := new_size\<rparr>))))"

text \<open>
  \<^verbatim>\<open>memory_write_callback\<close>, lines 1195-1300. The result is the returned count and
  the block after the call.
\<close>

definition memory_write_callback ::
  "string \<Rightarrow> size_t \<Rightarrow> size_t \<Rightarrow> MemoryBlock option \<Rightarrow> alloc_env
     \<Rightarrow> (size_t \<times> MemoryBlock option) option" where
  "memory_write_callback contents sz nm mem_block_ptr env =
     (let realsize = sz * nm
      in case mem_block_ptr of
           None \<Rightarrow> Some (0, None)
         | Some m \<Rightarrow>
             if data m \<noteq> None \<and> capacity m = 0 then Some (0, Some m)
             else if realsize > SIZE_MAX - size_mb m - 1 then Some (0, Some m)
             else
               (let required_size = size_mb m + realsize + 1
                in if required_size > MAX_DOWNLOAD_SIZE then Some (0, Some m)
                   else if required_size > capacity m then
                     (let new_capacity =
                            (if capacity m > 0 then capacity m else DEFAULT_MEMORY_PARSER_SIZE)
                      in if new_capacity = 0 then Some (0, Some m)
                         else
                           (case grow_capacity new_capacity required_size of
                              None \<Rightarrow> None
                            | Some new_capacity \<Rightarrow>
                                if free_mem env < new_capacity then Some (0, Some m)
                                else if \<not> realloc_ok env then Some (0, Some m)
                                else store_chunk contents realsize
                                       (m\<lparr>data := Some (realloc (data m) (capacity m) (fresh env)),
                                          capacity := new_capacity\<rparr>)))
                   else store_chunk contents realsize m))"

section \<open>Fetcher\<close>

text \<open>
  \<^verbatim>\<open>curl_easy_perform\<close> belongs to libcurl. Its documented contract is modelled: the
  body arrives as a sequence of chunks, each passed to the write callback with
  \<^verbatim>\<open>size = 1\<close> and \<^verbatim>\<open>nmemb\<close> the length of the chunk; when the callback
  returns a count different from the length it was passed, the transfer is aborted with
  \<^verbatim>\<open>CURLE_WRITE_ERROR\<close>; otherwise the result is that of the transfer. The chunks that
  libcurl delivers hold at least one byte; the model does not depend on it.
\<close>

datatype CURLcode = CURLE_OK | CURLE_WRITE_ERROR | CURLE_OTHER_ERROR

fun curl_easy_perform ::
  "(string \<times> alloc_env) list \<Rightarrow> CURLcode \<Rightarrow> MemoryBlock \<Rightarrow> (CURLcode \<times> MemoryBlock) option" where
  "curl_easy_perform [] transfer m = Some (transfer, m)"
| "curl_easy_perform ((contents, env) # rest) transfer m =
     (case memory_write_callback contents 1 (of_nat (length contents)) (Some m) env of
        None \<Rightarrow> None
      | Some (written, mp) \<Rightarrow>
          (case mp of
             None \<Rightarrow> None
           | Some m' \<Rightarrow>
               if written \<noteq> of_nat (length contents) then Some (CURLE_WRITE_ERROR, m')
               else curl_easy_perform rest transfer m'))"

text \<open>
  \<^verbatim>\<open>download_html\<close>, lines 1740-1765. The buffer of a fetch is the local
  \<^verbatim>\<open>chunk\<close>, which starts as \<^verbatim>\<open>{NULL, 0, 0}\<close>. The result is the returned pointer
  (\<open>Some None\<close> is \<^verbatim>\<open>NULL\<close>); the outer \<open>None\<close> is a call without a defined
  result.
\<close>

definition download_html ::
  "bool \<Rightarrow> (string \<times> alloc_env) list \<Rightarrow> CURLcode \<Rightarrow> (nat \<Rightarrow> char) option option" where
  "download_html curl_ok deliveries transfer =
     (if \<not> curl_ok then Some None
      else
        (case curl_easy_perform deliveries transfer \<lparr>data = None, size_mb = 0, capacity = 0\<rparr> of
           None \<Rightarrow> None
         | Some (rc, chunk) \<Rightarrow> if rc \<noteq> CURLE_OK then Some None else Some (data chunk)))"

text \<open>
  The states of the buffer that a fetch can reach: no block and no bytes, or a block
  with room for the bytes and the terminating NUL, below the cap. \<open>next_capacity\<close> is
  the capacity the callback would grow to; \<open>buf_holds\<close> says that the buffer holds
  exactly the bytes of \<open>body\<close>, NUL-terminated. \<open>enough_memory\<close> and
  \<open>low_memory\<close> are two answers of the system used in the examples.
\<close>

definition zero_fill :: "nat \<Rightarrow> char" where
  "zero_fill i = NUL"

definition mb_ok :: "MemoryBlock \<Rightarrow> bool" where
  "mb_ok m =
     (case data m of
        None \<Rightarrow> size_mb m = 0 \<and> capacity m = 0
      | Some d \<Rightarrow> size_mb m < capacity m \<and> capacity m \<le> MAX_DOWNLOAD_SIZE)"


definition next_capacity :: "MemoryBlock \<Rightarrow> size_t \<Rightarrow> size_t option" where
  "next_capacity m required_size =
     grow_capacity (if capacity m > 0 then capacity m else DEFAULT_MEMORY_PARSER_SIZE) required_size"

definition buf_holds :: "MemoryBlock \<Rightarrow> string \<Rightarrow> bool" where
  "buf_holds m body =
     (mb_ok m \<and> unat (size_mb m) = length body \<and>
      (case data m of
         None \<Rightarrow> body = []
       | Some d \<Rightarrow> map d [0..<length body] = body \<and> d (length body) = NUL))"

definition enough_memory :: alloc_env where
  "enough_memory = \<lparr>free_mem = 1073741824, realloc_ok = True, fresh = zero_fill\<rparr>"

definition low_memory :: alloc_env where
  "low_memory = \<lparr>free_mem = 4096, realloc_ok = True, fresh = zero_fill\<rparr>"

section \<open>Result list\<close>

text \<open>
  \<^verbatim>\<open>add_link\<close>, lines 1774-1806, with \<^verbatim>\<open>capitalize_each_word\<close> (lines 1885-1899)
  and \<^verbatim>\<open>sanitize_string\<close> (lines 1922-1930). The state of a search is the result list
  \<^verbatim>\<open>*out\<close>, the hash set \<^verbatim>\<open>link_set\<close> and the global counter
  \<^verbatim>\<open>recipe_result_total\<close> (line 517). \<^verbatim>\<open>snprintf\<close> into a buffer of 512 bytes keeps
  511 bytes of the title.
\<close>

definition MAX_RESULTS :: int where "MAX_RESULTS = 50"

fun capitalize_loop :: "bool \<Rightarrow> string \<Rightarrow> string" where
  "capitalize_loop capitalize_next [] = []"
| "capitalize_loop capitalize_next (c # p) =
     (let c' = (if capitalize_next \<and> isalpha_c c then toupper_c c else tolower_c c);
          next1 = (if capitalize_next \<and> isalpha_c c then False else capitalize_next);
          next2 = (if c' = SP then True else next1)
      in c' # capitalize_loop next2 p)"

definition capitalize_each_word :: "string \<Rightarrow> string" where
  "capitalize_each_word str = capitalize_loop True str"

definition sanitize_string :: "string \<Rightarrow> string" where
  "sanitize_string str = filter (\<lambda>c. 32 \<le> (of_char c :: nat) \<and> (of_char c :: nat) \<noteq> 127) str"

record link_state =
  out :: "string list"
  link_set :: "string set"
  recipe_result_total :: int

definition add_link :: "link_state \<Rightarrow> string \<Rightarrow> string \<Rightarrow> string \<Rightarrow> link_state" where
  "add_link st title base_url href =
     (if recipe_result_total st \<ge> MAX_RESULTS then st
      else
        (let temp_title = capitalize_each_word (take 511 title);
             safe_title = sanitize_string temp_title;
             safe_href = sanitize_string href;
             full_url = base_url @ safe_href
         in if full_url \<notin> link_set st then
              st\<lparr>out := out st @ [safe_title @ US # full_url],
                 link_set := insert full_url (link_set st),
                 recipe_result_total := recipe_result_total st + 1\<rparr>
            else st))"

text \<open>
  \<open>entry_url\<close> reads the URL of an entry the way \<^verbatim>\<open>show_results\<close> does, after the
  first separator. \<open>link_inv\<close> is the invariant of the result list; \<open>add_links\<close> is a
  sequence of calls of \<^verbatim>\<open>add_link\<close>, which is what a parser that adds all its
  candidates through \<^verbatim>\<open>add_link\<close> does to the state.
\<close>

definition entry_url :: "string \<Rightarrow> string" where
  "entry_url entry = tl (dropWhile (\<lambda>c. c \<noteq> US) entry)"

definition link_inv :: "link_state \<Rightarrow> bool" where
  "link_inv st =
     (recipe_result_total st = int (length (out st)) \<and>
      link_set st = set (map entry_url (out st)) \<and>
      distinct (map entry_url (out st)))"

fun add_links :: "(string \<times> string \<times> string) list \<Rightarrow> link_state \<Rightarrow> link_state" where
  "add_links [] st = st"
| "add_links ((title, base_url, href) # calls) st = add_links calls (add_link st title base_url href)"

section \<open>Site parsers\<close>

text \<open>
  \<^verbatim>\<open>url_encode\<close>, lines 6067-6084: the unreserved characters are kept, every other
  byte becomes \<^verbatim>\<open>%XX\<close>.
\<close>

definition hex_digit :: "nat \<Rightarrow> char" where
  "hex_digit n = (if n < 10 then char_of (48 + n) else char_of (55 + n))"

definition url_encode :: "string \<Rightarrow> string" where
  "url_encode str =
     concat (map (\<lambda>c. if isalnum_c c \<or> c = CHR ''-'' \<or> c = CHR ''.'' \<or> c = CHR ''_'' \<or> c = CHR ''~''
                       then [c]
                       else [CHR ''%'', hex_digit ((of_char c :: nat) div 16),
                             hex_digit ((of_char c :: nat) mod 16)]) str)"

text \<open>
  The part of a Gumbo tree that the Saveur parser reads: the kind of a node, whether an
  element is an anchor, its attributes and its children.
\<close>

datatype GumboTag = GUMBO_TAG_A | GUMBO_TAG_OTHER

datatype GumboNode =
    GUMBO_NODE_ELEMENT GumboTag "(string \<times> string) list" "GumboNode list"
  | GUMBO_NODE_TEMPLATE GumboTag "(string \<times> string) list" "GumboNode list"
  | GUMBO_NODE_TEXT string
  | GUMBO_NODE_OTHER

text \<open>
  \<^verbatim>\<open>extract_saveur_text\<close> (lines 6277-6286) and \<^verbatim>\<open>search_for_saveur_links\<close>
  (lines 6180-6269). For an anchor without text the code writes a title made from the
  last segment of the URL into the array \<^verbatim>\<open>slug\<close>, which is local to a block (lines
  6206-6237), and passes a pointer to it to \<^verbatim>\<open>add_link\<close> after the block has ended.
  What \<^verbatim>\<open>add_link\<close> reads there is not determined by the program: it is the
  parameter \<open>slug_after_block\<close>, a function of the URL of the anchor and of the title
  that was written. Two anchors with the same URL give one entry, so a function of the
  URL covers every entry.
\<close>

fun extract_saveur_text :: "GumboNode \<Rightarrow> string" where
  "extract_saveur_text (GUMBO_NODE_TEXT t) = t"
| "extract_saveur_text (GUMBO_NODE_ELEMENT tag attributes children) =
     concat (map extract_saveur_text children)"
| "extract_saveur_text (GUMBO_NODE_TEMPLATE tag attributes children) =
     concat (map extract_saveur_text children)"
| "extract_saveur_text GUMBO_NODE_OTHER = []"

fun scan_back :: "string \<Rightarrow> nat \<Rightarrow> nat" where
  "scan_back url prev =
     (if prev > 0 \<and> url ! prev \<noteq> CHR ''/'' then scan_back url (prev - 1) else prev)"

declare scan_back.simps [simp del]

definition saveur_slug_title :: "(string \<Rightarrow> string \<Rightarrow> string) \<Rightarrow> string \<Rightarrow> string" where
  "saveur_slug_title slug_after_block url =
     (if CHR ''/'' \<notin> set url then ''Untitled''
      else
        (let last_slash = length url - 1 - length (takeWhile (\<lambda>c. c \<noteq> CHR ''/'') (rev url));
             last_slash = (if last_slash + 1 = length url then scan_back url (last_slash - 1)
                           else last_slash);
             slug = take 255 (drop (last_slash + 1) url);
             slug = (if slug \<noteq> [] \<and> last slug = CHR ''/'' then butlast slug else slug);
             slug = map (\<lambda>c. if c = CHR ''-'' then SP else c) slug
         in slug_after_block url (capitalize_loop True slug)))"

definition saveur_title ::
  "(string \<Rightarrow> string \<Rightarrow> string) \<Rightarrow> GumboNode \<Rightarrow> string \<Rightarrow> string" where
  "saveur_title slug_after_block node url =
     (let title_buf = extract_saveur_text node
      in if title_buf \<noteq> [] then g_strstrip title_buf
         else saveur_slug_title slug_after_block url)"

fun search_for_saveur_links ::
  "(string \<Rightarrow> string \<Rightarrow> string) \<Rightarrow> GumboNode \<Rightarrow> link_state \<Rightarrow> link_state" where
  "search_for_saveur_links slug_after_block (GUMBO_NODE_ELEMENT tag attributes children) st =
     (let st1 =
        (if tag = GUMBO_TAG_A then
           (case map_of attributes ''href'' of
              None \<Rightarrow> st
            | Some url \<Rightarrow>
                if strstr url ''/recipe/'' \<or> strstr url ''/article/'' then
                  (let title = saveur_title slug_after_block
                                 (GUMBO_NODE_ELEMENT tag attributes children) url
                   in if strstr url ''https://'' \<or> strstr url ''http://''
                      then add_link st title [] url
                      else add_link st title [] (take 1023 (''https://www.saveur.com'' @ url)))
                else st)
         else st)
      in fold (search_for_saveur_links slug_after_block) children st1)"
| "search_for_saveur_links slug_after_block (GUMBO_NODE_TEMPLATE tag attributes children) st = st"
| "search_for_saveur_links slug_after_block (GUMBO_NODE_TEXT t) st = st"
| "search_for_saveur_links slug_after_block GUMBO_NODE_OTHER st = st"

text \<open>
  \<^verbatim>\<open>parse_saveur\<close>, lines 6098-6155. The parser fetches the search page itself; what
  the network answers is the parameter \<open>fetch\<close>: whether \<^verbatim>\<open>curl_easy_init\<close>
  succeeded, the result of the transfer, the response, and the tree Gumbo makes of it;
  the last field is what is read from the array \<^verbatim>\<open>slug\<close> after its block.
  The singularised term is only used in the URL of this fetch.
\<close>

record saveur_fetch =
  curl_init_ok :: bool
  res :: CURLcode
  html :: "string option"
  gumbo_root :: GumboNode
  slug_read :: "string \<Rightarrow> string \<Rightarrow> string"

definition parse_saveur :: "saveur_fetch \<Rightarrow> link_state \<Rightarrow> string \<Rightarrow> link_state" where
  "parse_saveur fetch st search_term =
     (let term = (if search_term \<noteq> [] then search_term else ''chicken'')
      in if \<not> curl_init_ok fetch then st
         else if res fetch \<noteq> CURLE_OK then st
         else
           (case html fetch of
              None \<Rightarrow> st
            | Some h \<Rightarrow>
                if h = [] then st
                else
                  (let st1 = search_for_saveur_links (slug_read fetch) (gumbo_root fetch) st
                   in if out st1 = [] then
                        add_link st1 (take 255 (''Search Saveur.com for '' @ term @ '' recipes'')) []
                          (take 1023 (''https://www.saveur.com/search/'' @ url_encode term))
                      else st1)))"

text \<open>
  \<^verbatim>\<open>parse_nyt\<close>, lines 5949-6061, stores its entries itself, with
  \<^verbatim>\<open>g_list_prepend\<close>, and does not call \<^verbatim>\<open>add_link\<close>. What the external scraper
  answers is the parameter \<open>scraper\<close>: whether \<^verbatim>\<open>popen\<close> succeeded, the number of
  bytes read, the exit status, and the JSON array (each item with its \<^verbatim>\<open>title\<close> and
  \<^verbatim>\<open>url\<close> strings, when present). The C code releases each entry string right after
  storing the pointer to it in the list (lines 6038-6042), so what a later reader of the
  cell finds is not determined by the program: it is the last field of \<open>scraper\<close>, a
  function of the entry that was written. The entries of one run have different URLs, so
  a function of the entry covers every cell. The fallback entries are not released.
\<close>

record nyt_scraper =
  popen_ok :: bool
  output_len :: nat
  exit_status :: int
  parsed_json :: "(string option \<times> string option) list option"
  freed_entry :: "string \<Rightarrow> string"

definition nyt_item ::
  "(string \<Rightarrow> string) \<Rightarrow> string option \<times> string option \<Rightarrow> link_state \<Rightarrow> link_state" where
  "nyt_item after_free item st =
     (case item of
        (Some title, Some url_path) \<Rightarrow>
          (let full_url = ''https://cooking.nytimes.com'' @ url_path
           in if full_url \<notin> link_set st then
                st\<lparr>out := after_free (title @ US # full_url) # out st,
                   link_set := insert full_url (link_set st)\<rparr>
              else st)
      | _ \<Rightarrow> st)"

definition parse_nyt :: "nyt_scraper \<Rightarrow> link_state \<Rightarrow> string \<Rightarrow> link_state" where
  "parse_nyt scraper st search_term =
     (let term = (if search_term \<noteq> [] then search_term else ''chicken'');
          search_url = take 511 (''https://cooking.nytimes.com/search?q='' @ url_encode term)
      in if \<not> popen_ok scraper then
           st\<lparr>out := (''Click to see '' @ term @ '' recipes on the NY Times Cooking Website''
                        @ US # search_url) # out st\<rparr>
         else if exit_status scraper \<noteq> 0 then
           st\<lparr>out := (''Click to see '' @ search_term @ '' on the NY Times Cooking Website''
                        @ US # search_url) # out st\<rparr>
         else if output_len scraper = 0 then
           st\<lparr>out := (''Click to see '' @ search_term @ '' on the NY Times Cooking Website''
                        @ US # search_url) # out st\<rparr>
         else
           (case parsed_json scraper of
              None \<Rightarrow>
                st\<lparr>out := (''Click to see  on the NY Times Cooking Website'' @ US # search_url)
                            # out st\<rparr>
            | Some items \<Rightarrow>
                (let st1 = fold (nyt_item (freed_entry scraper)) items st;
                     st2 = (if out st1 = [] then
                              st1\<lparr>out := (''Click to see  on the NY Times Cooking Website''
                                           @ US # search_url) # out st1\<rparr>
                            else st1)
                 in st2\<lparr>out := rev (out st2)\<rparr>)))"

section \<open>Search thread\<close>

text \<open>
  \<^verbatim>\<open>search_thread_func\<close>, lines 2987-3059. The site table is a parameter; a URL
  pattern is the text before and after its \<^verbatim>\<open>%s\<close>. The inputs of one search are the
  text of the entry, the selected index, the result of \<^verbatim>\<open>g_uri_escape_string\<close>, what
  the network answers to the fetch of the search page, and the tree Gumbo makes of it.
  The function returns the new value of \<^verbatim>\<open>recipe_result_total\<close> and the
  \<^verbatim>\<open>SearchResultData\<close> it hands to \<^verbatim>\<open>search_complete_cb\<close>.
\<close>

record RecipeSiteInfo =
  site_name :: string
  parse_site :: "(GumboNode \<Rightarrow> link_state \<Rightarrow> string \<Rightarrow> link_state) option"
  url_pattern :: "string \<times> string"

record search_inputs =
  entry_text :: string
  combo_active :: int
  uri_escaped :: "string option"
  page_curl_ok :: bool
  page_deliveries :: "(string \<times> alloc_env) list"
  page_transfer :: CURLcode
  gumbo_output :: "GumboNode option"

definition search_thread_func ::
  "RecipeSiteInfo list \<Rightarrow> search_inputs \<Rightarrow> int \<Rightarrow> int \<times> SearchResultData" where
  "search_thread_func table inp recipe_result_total0 =
     (let total = 0;
          result = \<lparr>results = [], status_message = None, success = False, search_url = None\<rparr>;
          q = entry_text inp
      in if q = [] then
           (total, result\<lparr>status_message :=
              Some ''      Please enter a recipe search term (like roast chicken, or chili)''\<rparr>)
         else if combo_active inp < 0 \<or> combo_active inp \<ge> int (length table) then
           (total, result\<lparr>status_message := Some ''Please select a valid recipe site.''\<rparr>)
         else
           (let site = table ! nat (combo_active inp)
            in case uri_escaped inp of
                 None \<Rightarrow> (total, result\<lparr>status_message := Some ''Failed to encode search term.''\<rparr>)
               | Some enc \<Rightarrow>
                   (let result = result\<lparr>search_url :=
                          Some (fst (url_pattern site) @ enc @ snd (url_pattern site))\<rparr>
                    in case download_html (page_curl_ok inp) (page_deliveries inp) (page_transfer inp) of
                         None \<Rightarrow> (total, result)
                       | Some None \<Rightarrow>
                           (total, result\<lparr>status_message := Some ''Failed to fetch recipes.''\<rparr>)
                       | Some (Some html_ptr) \<Rightarrow>
                           (case gumbo_output inp of
                              None \<Rightarrow> (total, result\<lparr>status_message :=
                                          Some ''Failed to parse HTML from site.''\<rparr>)
                            | Some root \<Rightarrow>
                                (case parse_site site of
                                   None \<Rightarrow> (total, result)
                                 | Some parse \<Rightarrow>
                                     (let st = parse root
                                                 \<lparr>out = [], link_set = {},
                                                  recipe_result_total = total\<rparr> q
                                      in (recipe_result_total st,
                                          result\<lparr>results := out st, success := True\<rparr>)))))))"
text \<open>
  The rows of the site table for Saveur and NY Times Cooking (lines 931 and 933), and
  the inputs used in the examples: a scraper answer of \<open>n\<close> recipes with different
  URLs, and a search for \<^verbatim>\<open>chili\<close> whose search page was fetched.
\<close>

definition saveur_site :: "saveur_fetch \<Rightarrow> RecipeSiteInfo" where
  "saveur_site fetch =
     \<lparr>site_name = ''Saveur'', parse_site = Some (\<lambda>unused. parse_saveur fetch),
      url_pattern = (''https://www.saveur.com/search/'', ''/'')\<rparr>"

definition nyt_site :: "nyt_scraper \<Rightarrow> RecipeSiteInfo" where
  "nyt_site scraper =
     \<lparr>site_name = ''NY Times Cooking'', parse_site = Some (\<lambda>root. parse_nyt scraper),
      url_pattern = (''https://cooking.nytimes.com/search?q='', [])\<rparr>"

fun numbered_recipes :: "nat \<Rightarrow> (string option \<times> string option) list" where
  "numbered_recipes 0 = []"
| "numbered_recipes (Suc n) =
     (Some ''Recipe'', Some (''/recipes/'' @ replicate n (CHR ''x''))) # numbered_recipes n"

definition page_fetched :: search_inputs where
  "page_fetched =
     \<lparr>entry_text = ''chili'', combo_active = 0, uri_escaped = Some ''chili'', page_curl_ok = True,
      page_deliveries = [(''<html></html>'', enough_memory)], page_transfer = CURLE_OK,
      gumbo_output = Some GUMBO_NODE_OTHER\<rparr>"

section \<open>Properties of quote detection\<close>

lemma count_quotes_count_list:
  "count_quotes q (s, d) = (s + int (count_list q SQ), d + int (count_list q DQ))"
  by (induction q arbitrary: s d) simp_all

text \<open>
  Claim C8. For every query, \<^verbatim>\<open>detect_quote_status\<close> returns \<^verbatim>\<open>QUOTE_PAIR\<close> exactly
  when the apostrophe or the double quote occurs an even, nonzero number of times; it
  returns \<^verbatim>\<open>QUOTE_SINGLE\<close> exactly when neither kind is paired and at least one quote
  character occurs; and it returns \<^verbatim>\<open>QUOTE_NONE\<close> exactly when neither occurs.
\<close>

theorem detect_quote_status_spec:
  "(detect_quote_status q = QUOTE_PAIR \<longleftrightarrow>
      (0 < count_list q SQ \<and> even (count_list q SQ)) \<or>
      (0 < count_list q DQ \<and> even (count_list q DQ))) \<and>
   (detect_quote_status q = QUOTE_SINGLE \<longleftrightarrow>
      \<not> ((0 < count_list q SQ \<and> even (count_list q SQ)) \<or>
         (0 < count_list q DQ \<and> even (count_list q DQ))) \<and>
      (0 < count_list q SQ \<or> 0 < count_list q DQ)) \<and>
   (detect_quote_status q = QUOTE_NONE \<longleftrightarrow>
      count_list q SQ = 0 \<and> count_list q DQ = 0)"
proof -
  have ev: "\<And>n :: nat. (int n mod 2 = 0) = even n"
    by presburger
  show ?thesis
    by (auto simp add: detect_quote_status_def count_quotes_count_list ev)
qed

theorem detect_quote_status_spec_witness:
  \<open>detect_quote_status ''"roast chicken"'' = QUOTE_PAIR \<and>
   count_list ''"roast chicken"'' DQ = 2 \<and>
   detect_quote_status ''roast "chicken'' = QUOTE_SINGLE \<and>
   detect_quote_status ''chili'' = QUOTE_NONE\<close>
  using detect_quote_status_spec [of \<open>''"roast chicken"''\<close>]
    detect_quote_status_spec [of \<open>''roast "chicken''\<close>]
    detect_quote_status_spec [of \<open>''chili''\<close>]
  by simp

text \<open>
  Claim C9. The claim says that curly quotes are normalised to ASCII quotes before the
  quote characters are counted. The program has the normalisation
  (\<^verbatim>\<open>normalize_quotes_utf8\<close>, applied by \<^verbatim>\<open>extract_quoted_phrases\<close>), but
  \<^verbatim>\<open>initialize_on_search\<close> hands the raw query to \<^verbatim>\<open>detect_quote_status\<close>, which
  counts ASCII quotes only. The query \<^verbatim>\<open>roast chicken\<close> in curly double quotes is
  therefore classified \<^verbatim>\<open>QUOTE_NONE\<close>, while the same query in ASCII quotes, and the
  normalised curly query, are classified \<^verbatim>\<open>QUOTE_PAIR\<close>.
\<close>

theorem curly_quotes_not_detected:
  "initialize_on_search
     ([CHR 0xE2, CHR 0x80, CHR 0x9C] @ ''roast chicken'' @ [CHR 0xE2, CHR 0x80, CHR 0x9D])
     = Some QUOTE_NONE \<and>
   initialize_on_search ([DQ] @ ''roast chicken'' @ [DQ]) = Some QUOTE_PAIR \<and>
   detect_quote_status (normalize_quotes_utf8
     ([CHR 0xE2, CHR 0x80, CHR 0x9C] @ ''roast chicken'' @ [CHR 0xE2, CHR 0x80, CHR 0x9D]))
     = QUOTE_PAIR"
  by (simp add: initialize_on_search_def detect_quote_status_def)

section \<open>Properties of tokenisation\<close>

lemma tolower_c_idem: "tolower_c (tolower_c c) = tolower_c c"
  by (simp add: tolower_c_def isupper_c_def Let_def)


lemma strtok_tokens_Nil: "strtok_tokens [] = []"
  by (simp add: strtok_tokens.simps)

lemma strtok_tokens_SP: "strtok_tokens (SP # s) = strtok_tokens s"
  by (subst strtok_tokens.simps, subst (2) strtok_tokens.simps) simp

lemma strtok_tokens_token:
  assumes "t \<noteq> []" and "SP \<notin> set t"
  shows "strtok_tokens (t @ SP # s) = t # strtok_tokens s"
proof -
  from assms obtain a t' where t: "t = a # t'" and a: "a \<noteq> SP" by (cases t) auto
  have d: "dropWhile (\<lambda>c. c = SP) (t @ SP # s) = t @ SP # s" using t a by simp
  have tw: "takeWhile (\<lambda>c. c \<noteq> SP) (t @ SP # s) = t"
    using assms(2) by (subst takeWhile_append2) auto
  have dw: "dropWhile (\<lambda>c. c \<noteq> SP) (t @ SP # s) = SP # s"
    using assms(2) by (subst dropWhile_append2) auto
  have "strtok_tokens (t @ SP # s) = t # strtok_tokens (SP # s)"
    by (subst strtok_tokens.simps) (simp only: Let_def d tw dw, simp)
  then show ?thesis by (simp add: strtok_tokens_SP)
qed

lemma strtok_tokens_single:
  assumes "t \<noteq> []" and "SP \<notin> set t"
  shows "strtok_tokens t = [t]"
proof -
  from assms obtain a t' where t: "t = a # t'" and a: "a \<noteq> SP" by (cases t) auto
  have d: "dropWhile (\<lambda>c. c = SP) t = t" using t a by simp
  have tw: "takeWhile (\<lambda>c. c \<noteq> SP) t = t" using assms(2) by auto
  have dw: "dropWhile (\<lambda>c. c \<noteq> SP) t = []" using assms(2) by auto
  show ?thesis
    by (subst strtok_tokens.simps) (simp only: Let_def d tw dw, simp add: assms strtok_tokens_Nil)
qed

lemma strtok_tokens_props:
  "t \<in> set (strtok_tokens s) \<Longrightarrow> t \<noteq> [] \<and> SP \<notin> set t \<and> set t \<subseteq> set s"
proof (induction s rule: strtok_tokens.induct)
  case (1 s)
  let ?s1 = "dropWhile (\<lambda>c. c = SP) s"
  show ?case
  proof (cases "?s1 = []")
    case True
    with "1.prems" show ?thesis by (subst (asm) strtok_tokens.simps) simp
  next
    case False
    then have hd: "hd ?s1 \<noteq> SP" using hd_dropWhile [of "\<lambda>c. c = SP" s] by simp
    from "1.prems" False have
      "t = takeWhile (\<lambda>c. c \<noteq> SP) ?s1 \<or> t \<in> set (strtok_tokens (dropWhile (\<lambda>c. c \<noteq> SP) ?s1))"
      by (subst (asm) strtok_tokens.simps) (auto simp add: Let_def split: if_splits)
    then show ?thesis
    proof
      assume t: "t = takeWhile (\<lambda>c. c \<noteq> SP) ?s1"
      have "t \<noteq> []" using False hd t by (cases ?s1) auto
      moreover have "SP \<notin> set t" using t by (auto dest: set_takeWhileD)
      moreover have "set t \<subseteq> set s" using t
        by (auto dest!: set_takeWhileD set_dropWhileD)
      ultimately show ?thesis by simp
    next
      assume "t \<in> set (strtok_tokens (dropWhile (\<lambda>c. c \<noteq> SP) ?s1))"
      with "1.IH" [OF refl False] have "t \<noteq> [] \<and> SP \<notin> set t \<and> set t \<subseteq> set (dropWhile (\<lambda>c. c \<noteq> SP) ?s1)"
        by simp
      then show ?thesis by (auto dest!: set_dropWhileD)
    qed
  qed
qed

lemma join_foldl:
  "acc \<noteq> [] \<Longrightarrow>
   foldl (\<lambda>builder x. (if builder \<noteq> [] then builder @ [SP] else builder) @ x) acc xs
     = acc @ concat (map ((#) SP) xs)"
  by (induction xs arbitrary: acc) simp_all

lemma join_spaces_Nil: "join_spaces [] = []"
  by (simp add: join_spaces_def)

lemma join_spaces_Cons:
  "t \<noteq> [] \<Longrightarrow> join_spaces (t # ts) = t @ concat (map ((#) SP) ts)"
  by (simp add: join_spaces_def join_foldl)

lemma strtok_tokens_join:
  "\<forall>t \<in> set (t0 # ts). t \<noteq> [] \<and> SP \<notin> set t \<Longrightarrow>
   strtok_tokens (t0 @ concat (map ((#) SP) ts)) = t0 # ts"
proof (induction ts arbitrary: t0)
  case Nil
  then show ?case by (simp add: strtok_tokens_single)
next
  case (Cons t1 ts)
  have "strtok_tokens (t0 @ SP # (t1 @ concat (map ((#) SP) ts)))
          = t0 # strtok_tokens (t1 @ concat (map ((#) SP) ts))"
    using Cons.prems by (intro strtok_tokens_token) simp_all
  also have "strtok_tokens (t1 @ concat (map ((#) SP) ts)) = t1 # ts"
    using Cons.prems by (intro Cons.IH) simp
  finally show ?case by simp
qed

lemma tokenize_props:
  assumes "t \<in> set (tokenize_and_filter_stop_words s)"
  shows "t \<noteq> [] \<and> SP \<notin> set t \<and> g_ascii_strdown t = t \<and> \<not> is_stop_word t"
proof -
  from assms have mem: "t \<in> set (strtok_tokens (g_ascii_strdown s))" and ns: "\<not> is_stop_word t"
    by (simp_all add: tokenize_and_filter_stop_words_def)
  from strtok_tokens_props [OF mem] have p: "t \<noteq> []" "SP \<notin> set t" "set t \<subseteq> set (g_ascii_strdown s)"
    by simp_all
  have "map tolower_c t = t"
  proof (rule map_idI)
    fix c assume "c \<in> set t"
    with p(3) obtain d where "c = tolower_c d" by (auto simp: g_ascii_strdown_def)
    then show "tolower_c c = c" by (simp add: tolower_c_idem)
  qed
  with p ns show ?thesis by (simp add: g_ascii_strdown_def)
qed

lemma g_ascii_strdown_append: "g_ascii_strdown (a @ b) = g_ascii_strdown a @ g_ascii_strdown b"
  by (simp add: g_ascii_strdown_def)

lemma g_ascii_strdown_join:
  "\<forall>t \<in> set ts. g_ascii_strdown t = t \<Longrightarrow>
   g_ascii_strdown (concat (map ((#) SP) ts)) = concat (map ((#) SP) ts)"
  by (induction ts) (simp_all add: g_ascii_strdown_def tolower_c_def isupper_c_def)

lemma tokenize_join_idem:
  "tokenize_and_filter_stop_words (join_spaces (tokenize_and_filter_stop_words s))
     = tokenize_and_filter_stop_words s"
proof (cases "tokenize_and_filter_stop_words s")
  case Nil
  then show ?thesis
    by (simp add: join_spaces_Nil tokenize_and_filter_stop_words_def g_ascii_strdown_def
        strtok_tokens_Nil)
next
  case (Cons t0 ts)
  have all: "\<forall>t \<in> set (t0 # ts). t \<noteq> [] \<and> SP \<notin> set t \<and> g_ascii_strdown t = t \<and> \<not> is_stop_word t"
    using tokenize_props [of _ s] Cons by metis
  then have j: "join_spaces (t0 # ts) = t0 @ concat (map ((#) SP) ts)"
    by (simp add: join_spaces_Cons)
  have d: "g_ascii_strdown (join_spaces (t0 # ts)) = join_spaces (t0 # ts)"
    using all by (simp add: j g_ascii_strdown_append g_ascii_strdown_join)
  have s: "strtok_tokens (join_spaces (t0 # ts)) = t0 # ts"
    unfolding j using all by (intro strtok_tokens_join) simp
  have f: "filter (\<lambda>token. \<not> is_stop_word token) (t0 # ts) = t0 # ts"
    using all by (intro filter_True) simp
  have "tokenize_and_filter_stop_words (join_spaces (t0 # ts)) = t0 # ts"
    unfolding tokenize_and_filter_stop_words_def d s f ..
  then show ?thesis by (simp only: Cons)
qed

lemma strstr_iff: "strstr h n \<longleftrightarrow> (\<exists>pre post. h = pre @ n @ post)"
proof (induction h)
  case Nil
  then show ?case by auto
next
  case (Cons c h)
  have "take (length n) (c # h) = n \<longleftrightarrow> (\<exists>post. c # h = n @ post)"
    by (metis append_eq_conv_conj append_take_drop_id)
  moreover have "(\<exists>pre post. c # h = pre @ n @ post) \<longleftrightarrow>
      (\<exists>post. c # h = n @ post) \<or> (\<exists>pre post. h = pre @ n @ post)"
  proof
    assume "\<exists>pre post. c # h = pre @ n @ post"
    then obtain pre post where e: "c # h = pre @ n @ post" by blast
    show "(\<exists>post. c # h = n @ post) \<or> (\<exists>pre post. h = pre @ n @ post)"
    proof (cases pre)
      case Nil
      with e show ?thesis by auto
    next
      case (Cons a pre')
      with e have "h = pre' @ n @ post" by simp
      then show ?thesis by blast
    qed
  next
    assume "(\<exists>post. c # h = n @ post) \<or> (\<exists>pre post. h = pre @ n @ post)"
    then show "\<exists>pre post. c # h = pre @ n @ post"
    proof
      assume "\<exists>post. c # h = n @ post"
      then obtain post where "c # h = [] @ n @ post" by auto
      then show ?thesis by blast
    next
      assume "\<exists>pre post. h = pre @ n @ post"
      then obtain pre post where "c # h = (c # pre) @ n @ post" by auto
      then show ?thesis by blast
    qed
  qed
  ultimately show ?case using Cons.IH by simp
qed


section \<open>Properties of match ranking\<close>

lemma loop_tokens_decisive:
  "(case partial_search_term_of (extract_quoted_phrases q) of
      Some term \<Rightarrow> if QUOTE_PAIR = QUOTE_PAIR \<and> extract_quoted_phrases q \<noteq> []
                   then tokenize_and_filter_stop_words term else []
    | None \<Rightarrow> []) = decisive_tokens q"
proof (cases "extract_quoted_phrases q = []")
  case True
  then show ?thesis
    by (simp add: partial_search_term_of_def decisive_tokens_def join_spaces_Nil
        tokenize_and_filter_stop_words_def g_ascii_strdown_def strtok_tokens_Nil)
next
  case False
  then show ?thesis
    by (simp add: partial_search_term_of_def decisive_tokens_def Let_def tokenize_join_idem)
qed

lemma split_entry:
  assumes "US \<notin> set t"
  shows "takeWhile (\<lambda>c. c \<noteq> US) (t @ US # u) = t"
    and "tl (dropWhile (\<lambda>c. c \<noteq> US) (t @ US # u)) = u"
proof -
  show "takeWhile (\<lambda>c. c \<noteq> US) (t @ US # u) = t"
    using assms by (subst takeWhile_append2) auto
  show "tl (dropWhile (\<lambda>c. c \<noteq> US) (t @ US # u)) = u"
    using assms by (subst dropWhile_append2) auto
qed

lemma filter_length_eq_iff: "length (filter P xs) = length xs \<longleftrightarrow> (\<forall>x \<in> set xs. P x)"
  by (metis filter_id_conv length_filter_less less_irrefl_nat filter_True)

lemma show_results_entry_paired:
  assumes "US \<notin> set t"
  shows "show_results_entry QUOTE_PAIR (extract_quoted_phrases q)
           (partial_search_term_of (extract_quoted_phrases q)) (t @ US # u) =
     (let dec = decisive_tokens q; matched = matched_count dec t; total = length dec
      in if matched = total \<and> 0 < total then
           Some \<lparr>title_ri = t, url_ri = u, perfect_match = True, partial_match = False,
                 matched_tokens = int matched, total_tokens = int total\<rparr>
         else if 0 < matched \<and> matched < total then
           Some \<lparr>title_ri = t, url_ri = u, perfect_match = False, partial_match = True,
                 matched_tokens = int matched, total_tokens = int total\<rparr>
         else None)"
proof -
  have le: "length (filter (strstr (g_ascii_strdown t)) (decisive_tokens q))
              \<le> length (decisive_tokens q)"
    by simp
  show ?thesis
    unfolding show_results_entry_def
    using le
    by (auto simp add: loop_tokens_decisive [simplified] split_entry [OF assms] Let_def
        matched_count_def not_less intro: le_antisym)
qed

lemma length_filter_neq_less:
  "length (filter P xs) \<noteq> length xs \<Longrightarrow> length (filter P xs) < length xs"
  by (simp add: le_neq_implies_less)

lemma show_results_entry_retained:
  assumes "show_results_entry QUOTE_PAIR (extract_quoted_phrases q)
           (partial_search_term_of (extract_quoted_phrases q)) e = Some r"
  shows "1 \<le> matched_tokens r \<and> matched_tokens r \<le> total_tokens r \<and>
         total_tokens r = int (length (decisive_tokens q)) \<and>
         (perfect_match r \<longleftrightarrow> matched_tokens r = total_tokens r) \<and>
         (partial_match r \<longleftrightarrow> matched_tokens r < total_tokens r)"
proof -
  have le: "\<And>P. length (filter P (decisive_tokens q)) \<le> length (decisive_tokens q)"
    by simp
  show ?thesis
    using assms le [of "strstr (g_ascii_strdown (takeWhile (\<lambda>c. c \<noteq> US) e))"]
    unfolding show_results_entry_def
    by (auto simp add: loop_tokens_decisive [simplified] Let_def Suc_le_eq split: if_splits
        dest: length_filter_neq_less)
qed

lemma show_results_Cons:
  "show_results (e # links) q qs = show_results [e] q qs @ show_results links q qs"
  by (simp add: show_results_def Let_def split: option.splits)

lemma strtok_tokens_spaces:
  "\<forall>c \<in> set sp. c = SP \<Longrightarrow> strtok_tokens (sp @ x) = strtok_tokens x"
proof (induction sp)
  case Nil
  show ?case by simp
next
  case (Cons a sp)
  then have a: "a = SP" and sp: "\<forall>c \<in> set sp. c = SP" by simp_all
  have "strtok_tokens ((a # sp) @ x) = strtok_tokens (SP # (sp @ x))" using a by simp
  also have "\<dots> = strtok_tokens (sp @ x)" by (rule strtok_tokens_SP)
  also have "\<dots> = strtok_tokens x" using sp by (rule Cons.IH)
  finally show ?case .
qed

lemma split_first_token:
  assumes "\<not> (\<forall>c \<in> set a. c = SP)"
  shows "\<exists>sp t rest. a = sp @ t @ rest \<and> (\<forall>c \<in> set sp. c = SP) \<and> t \<noteq> [] \<and> SP \<notin> set t \<and>
           (rest = [] \<or> (\<exists>r. rest = SP # r))"
proof -
  define sp where "sp = takeWhile (\<lambda>c. c = SP) a"
  define s1 where "s1 = dropWhile (\<lambda>c. c = SP) a"
  define t where "t = takeWhile (\<lambda>c. c \<noteq> SP) s1"
  define rest where "rest = dropWhile (\<lambda>c. c \<noteq> SP) s1"
  have a: "a = sp @ s1" by (simp add: sp_def s1_def)
  have s1: "s1 = t @ rest" by (simp add: t_def rest_def)
  have sp: "\<forall>c \<in> set sp. c = SP" unfolding sp_def by (auto dest: set_takeWhileD)
  have ne: "s1 \<noteq> []" using assms unfolding s1_def by (simp add: dropWhile_eq_Nil_conv)
  then have hd: "hd s1 \<noteq> SP" unfolding s1_def using hd_dropWhile [of "\<lambda>c. c = SP" a] by blast
  have t1: "t \<noteq> []" using ne hd unfolding t_def by (cases s1) auto
  have t2: "SP \<notin> set t" unfolding t_def by (auto dest: set_takeWhileD)
  have r: "rest = [] \<or> (\<exists>r. rest = SP # r)"
  proof (cases rest)
    case Nil
    then show ?thesis by simp
  next
    case (Cons x r)
    then have "rest \<noteq> []" by simp
    then have "\<not> (hd rest \<noteq> SP)"
      unfolding rest_def using hd_dropWhile [of "\<lambda>c. c \<noteq> SP" s1] by blast
    with Cons show ?thesis by simp
  qed
  from a s1 have "a = sp @ t @ rest" by simp
  with sp t1 t2 r show ?thesis by blast
qed

lemma strtok_tokens_append_SP:
  "strtok_tokens (a @ SP # b) = strtok_tokens a @ strtok_tokens b"
proof (induction "length a" arbitrary: a rule: less_induct)
  case less
  show ?case
  proof (cases "\<forall>c \<in> set a. c = SP")
    case True
    have "strtok_tokens (a @ []) = strtok_tokens []" using True by (rule strtok_tokens_spaces)
    then have l: "strtok_tokens a = []" by (simp add: strtok_tokens_Nil)
    from True have "\<forall>c \<in> set (a @ [SP]). c = SP" by simp
    then have "strtok_tokens ((a @ [SP]) @ b) = strtok_tokens b" by (rule strtok_tokens_spaces)
    then have "strtok_tokens (a @ SP # b) = strtok_tokens b" by simp
    with l show ?thesis by simp
  next
    case False
    from split_first_token [OF False] obtain sp t rest where
      a: "a = sp @ t @ rest" and sp: "\<forall>c \<in> set sp. c = SP" and t1: "t \<noteq> []"
      and t2: "SP \<notin> set t" and r: "rest = [] \<or> (\<exists>r. rest = SP # r)" by blast
    from r show ?thesis
    proof
      assume e: "rest = []"
      have "strtok_tokens (sp @ t) = strtok_tokens t" using sp by (rule strtok_tokens_spaces)
      then have l: "strtok_tokens a = [t]" using a e t1 t2 by (simp add: strtok_tokens_single)
      have "strtok_tokens (sp @ (t @ SP # b)) = strtok_tokens (t @ SP # b)"
        using sp by (rule strtok_tokens_spaces)
      also have "\<dots> = t # strtok_tokens b" using t1 t2 by (rule strtok_tokens_token)
      finally have "strtok_tokens (a @ SP # b) = t # strtok_tokens b" using a e by simp
      with l show ?thesis by simp
    next
      assume "\<exists>r. rest = SP # r"
      then obtain r where e: "rest = SP # r" by blast
      have len: "length r < length a" using a e by simp
      have "strtok_tokens (sp @ (t @ SP # r)) = strtok_tokens (t @ SP # r)"
        using sp by (rule strtok_tokens_spaces)
      also have "\<dots> = t # strtok_tokens r" using t1 t2 by (rule strtok_tokens_token)
      finally have l: "strtok_tokens a = t # strtok_tokens r" using a e by simp
      have "strtok_tokens (sp @ (t @ SP # (r @ SP # b))) = strtok_tokens (t @ SP # (r @ SP # b))"
        using sp by (rule strtok_tokens_spaces)
      also have "\<dots> = t # strtok_tokens (r @ SP # b)" using t1 t2 by (rule strtok_tokens_token)
      also have "strtok_tokens (r @ SP # b) = strtok_tokens r @ strtok_tokens b"
        using len by (rule less)
      finally have "strtok_tokens (a @ SP # b) = t # strtok_tokens r @ strtok_tokens b"
        using a e by simp
      with l show ?thesis by simp
    qed
  qed
qed

lemma tolower_c_SP: "tolower_c SP = SP"
  by (simp add: tolower_c_def isupper_c_def)

lemma g_ascii_strdown_Nil: "g_ascii_strdown [] = []"
  by (simp add: g_ascii_strdown_def)

lemma strtok_strdown_foldl:
  "strtok_tokens (g_ascii_strdown
      (foldl (\<lambda>builder x. (if builder \<noteq> [] then builder @ [SP] else builder) @ x) acc ps))
   = strtok_tokens (g_ascii_strdown acc)
     @ concat (map (\<lambda>p. strtok_tokens (g_ascii_strdown p)) ps)"
proof (induction ps arbitrary: acc)
  case Nil
  then show ?case by simp
next
  case (Cons p ps)
  show ?case
  proof (cases "acc = []")
    case True
    then show ?thesis
      by (simp add: Cons.IH g_ascii_strdown_Nil strtok_tokens_Nil)
  next
    case False
    have "g_ascii_strdown ((acc @ [SP]) @ p) = g_ascii_strdown acc @ SP # g_ascii_strdown p"
      by (simp add: g_ascii_strdown_def tolower_c_SP)
    then show ?thesis using False
      by (simp add: Cons.IH strtok_tokens_append_SP)
  qed
qed

lemma tokenize_join_spaces:
  "tokenize_and_filter_stop_words (join_spaces ps)
     = concat (map tokenize_and_filter_stop_words ps)"
  by (simp add: tokenize_and_filter_stop_words_def [abs_def] join_spaces_def strtok_strdown_foldl
      g_ascii_strdown_Nil strtok_tokens_Nil filter_concat comp_def)

lemma show_results_loop_retained:
  "r \<in> set (show_results_loop QUOTE_PAIR (extract_quoted_phrases q)
        (partial_search_term_of (extract_quoted_phrases q)) links) \<Longrightarrow> retained_ok q r"
proof (induction links)
  case Nil
  then show ?case by simp
next
  case (Cons e links)
  show ?case
  proof (cases "show_results_entry QUOTE_PAIR (extract_quoted_phrases q)
           (partial_search_term_of (extract_quoted_phrases q)) e")
    case None
    with Cons show ?thesis by simp
  next
    case (Some r')
    have "retained_ok q r'"
      unfolding retained_ok_def by (rule show_results_entry_retained [OF Some])
    with Cons Some show ?thesis by auto
  qed
qed

lemma show_results_retained:
  "r \<in> set (show_results links q QUOTE_PAIR) \<Longrightarrow> retained_ok q r"
  using show_results_loop_retained [of r q links]
  by (simp add: show_results_def quoted_phrases_of_def Let_def)

lemma show_results_single:
  assumes "US \<notin> set t"
  shows "show_results [t @ US # u] q QUOTE_PAIR =
     (let dec = decisive_tokens q; matched = matched_count dec t; total = length dec
      in if matched = total \<and> 0 < total then
           [\<lparr>title_ri = t, url_ri = u, perfect_match = True, partial_match = False,
             matched_tokens = int matched, total_tokens = int total\<rparr>]
         else if 0 < matched \<and> matched < total then
           [\<lparr>title_ri = t, url_ri = u, perfect_match = False, partial_match = True,
             matched_tokens = int matched, total_tokens = int total\<rparr>]
         else [])"
  by (simp add: show_results_def quoted_phrases_of_def show_results_entry_paired [OF assms] Let_def)

lemma show_results_no_tokens:
  assumes "decisive_tokens q = []"
  shows "show_results links q QUOTE_PAIR = []"
proof (rule ccontr)
  assume "show_results links q QUOTE_PAIR \<noteq> []"
  then obtain r where "r \<in> set (show_results links q QUOTE_PAIR)"
    by (cases "show_results links q QUOTE_PAIR") auto
  then have "retained_ok q r" by (rule show_results_retained)
  with assms show False by (auto simp add: retained_ok_def)
qed


text \<open>
  Claim C1. In a \<^verbatim>\<open>QUOTE_PAIR\<close> search, a candidate \<open>t\<close>, \<open>u\<close> (stored as
  \<^verbatim>\<open>t \x1f u\<close>; the title holds no separator) is classified against the decisive tokens
  of the query: with \<open>matched\<close> the number of decisive tokens that occur in the lower-cased
  title and \<open>total\<close> the number of decisive tokens, it is retained as a perfect match
  exactly when \<open>matched = total\<close> and \<open>total > 0\<close>, as a partial match exactly when
  \<open>0 < matched < total\<close>, and dropped otherwise. The result for a list of candidates is
  the concatenation of the results for each, and every retained result has
  \<open>matched \<ge> 1\<close>, with \<open>matched = total\<close> for a perfect match.
\<close>

theorem show_results_paired_classification:
  assumes "US \<notin> set t"
  shows "show_results [t @ US # u] q QUOTE_PAIR =
     (let dec = decisive_tokens q; matched = matched_count dec t; total = length dec
      in if matched = total \<and> 0 < total then
           [\<lparr>title_ri = t, url_ri = u, perfect_match = True, partial_match = False,
             matched_tokens = int matched, total_tokens = int total\<rparr>]
         else if 0 < matched \<and> matched < total then
           [\<lparr>title_ri = t, url_ri = u, perfect_match = False, partial_match = True,
             matched_tokens = int matched, total_tokens = int total\<rparr>]
         else []) \<and>
    show_results (e # links) q QUOTE_PAIR
      = show_results [e] q QUOTE_PAIR @ show_results links q QUOTE_PAIR \<and>
    (\<forall>r \<in> set (show_results links q QUOTE_PAIR).
       1 \<le> matched_tokens r \<and> (perfect_match r \<longrightarrow> matched_tokens r = total_tokens r))"
proof -
  have "\<forall>r \<in> set (show_results links q QUOTE_PAIR).
       1 \<le> matched_tokens r \<and> (perfect_match r \<longrightarrow> matched_tokens r = total_tokens r)"
    using show_results_retained [of _ links q] by (auto simp add: retained_ok_def)
  with show_results_single [OF assms, of u q] show_results_Cons [of e links q QUOTE_PAIR]
  show ?thesis by (simp only:)
qed

theorem show_results_paired_classification_witness:
  "US \<notin> set ''Roast Chicken'' \<and>
   show_results [''Roast Chicken'' @ US # ''https://example.org/rc''] (DQ # ''roast the beef'' @ [DQ]) QUOTE_PAIR =
     [\<lparr>title_ri = ''Roast Chicken'', url_ri = ''https://example.org/rc'', perfect_match = False,
       partial_match = True, matched_tokens = 1, total_tokens = 2\<rparr>]"
proof -
  have h: "US \<notin> set ''Roast Chicken''" by simp
  have d: "decisive_tokens (DQ # ''roast the beef'' @ [DQ]) = [''roast'', ''beef'']"
    by code_simp
  have m: "matched_count [''roast'', ''beef''] ''Roast Chicken'' = 1"
    by code_simp
  note c = show_results_paired_classification [OF h, of "''https://example.org/rc''"
        "DQ # ''roast the beef'' @ [DQ]" "[]" "[]", THEN conjunct1]
  show ?thesis unfolding c Let_def d m using h by simp
qed

text \<open>
  What \<^verbatim>\<open>search_complete_cb\<close> shows: with the success flag set and a list that is not
  empty, whatever \<^verbatim>\<open>show_results\<close> keeps of it; with a search URL and an empty list,
  the fallback link to the search URL.
\<close>

lemma search_complete_cb_outcome:
  "(success r \<and> results r \<noteq> [] \<longrightarrow>
      search_complete_cb r q qs = ShowResults (show_results (results r) q qs)) \<and>
   (results r = [] \<and> search_url r = Some u \<longrightarrow>
      search_complete_cb r q qs =
        FallbackLink u ''Matching recipes not found. Click to open the main food website.'')"
  by (simp add: search_complete_cb_def)

text \<open>
  Claim C2. The claim says that a search whose candidates are all removed by match
  filtering ends in the fallback outcome, a single link to the site, so that the user is
  never shown an empty success. \<^verbatim>\<open>search_complete_cb\<close> (lines 3107-3113) chooses
  between results and fallback from the unfiltered list, before \<^verbatim>\<open>show_results\<close>
  drops the entries that match no decisive token (line 2854). For the query
  \<^verbatim>\<open>"roast chicken"\<close> and the single candidate \<^verbatim>\<open>Beef Stew\<close>, the user is shown
  an empty list of results and no fallback link; the same search with no candidate at all
  shows the fallback link.
\<close>

theorem filtered_empty_is_shown_not_fallback:
  "show_results [''Beef Stew'' @ US # ''https://example.org/beef-stew'']
     (DQ # ''roast chicken'' @ [DQ]) QUOTE_PAIR = [] \<and>
   search_complete_cb
     \<lparr>results = [''Beef Stew'' @ US # ''https://example.org/beef-stew''],
      status_message = None, success = True,
      search_url = Some ''https://www.allrecipes.com/search/results/?wt=%22roast%20chicken%22''\<rparr>
     (DQ # ''roast chicken'' @ [DQ]) QUOTE_PAIR = ShowResults [] \<and>
   search_complete_cb
     \<lparr>results = [],
      status_message = None, success = True,
      search_url = Some ''https://www.allrecipes.com/search/results/?wt=%22roast%20chicken%22''\<rparr>
     (DQ # ''roast chicken'' @ [DQ]) QUOTE_PAIR
     = FallbackLink ''https://www.allrecipes.com/search/results/?wt=%22roast%20chicken%22''
         ''Matching recipes not found. Click to open the main food website.''"
  by code_simp

text \<open>
  Claim C10. In a \<^verbatim>\<open>QUOTE_PAIR\<close> search whose quoted phrases yield no token (there
  is no phrase, or every phrase is empty or made of stop words), there is no decisive
  token, every candidate is dropped, and a search that had candidates shows the empty list
  of results, not a fallback link.
\<close>

theorem no_decisive_token_shows_nothing:
  assumes "\<forall>p \<in> set (extract_quoted_phrases q). tokenize_and_filter_stop_words p = []"
  shows "decisive_tokens q = [] \<and> show_results links q QUOTE_PAIR = [] \<and>
         (success r \<and> results r \<noteq> [] \<longrightarrow> search_complete_cb r q QUOTE_PAIR = ShowResults [])"
proof -
  have d: "decisive_tokens q = []"
    using assms by (simp add: decisive_tokens_def tokenize_join_spaces)
  then show ?thesis
    by (simp add: show_results_no_tokens search_complete_cb_def)
qed

theorem no_decisive_token_shows_nothing_witness:
  "decisive_tokens (DQ # ''the'' @ [DQ]) = [] \<and>
   show_results [''Beef Stew'' @ US # ''https://example.org/beef-stew''] (DQ # ''the'' @ [DQ])
     QUOTE_PAIR = [] \<and>
   search_complete_cb
     \<lparr>results = [''Beef Stew'' @ US # ''https://example.org/beef-stew''],
      status_message = None, success = True, search_url = Some ''https://example.org/s''\<rparr>
     (DQ # ''the'' @ [DQ]) QUOTE_PAIR = ShowResults []"
proof -
  have h: "\<forall>p \<in> set (extract_quoted_phrases (DQ # ''the'' @ [DQ])).
      tokenize_and_filter_stop_words p = []"
    by code_simp
  show ?thesis
    using no_decisive_token_shows_nothing [OF h,
      of "[''Beef Stew'' @ US # ''https://example.org/beef-stew'']"
      "\<lparr>results = [''Beef Stew'' @ US # ''https://example.org/beef-stew''],
        status_message = None, success = True, search_url = Some ''https://example.org/s''\<rparr>"]
    by simp
qed

section \<open>Properties of the growable buffer\<close>

lemma MAX_unat: "unat MAX_DOWNLOAD_SIZE = 33554432"
  by (simp add: MAX_DOWNLOAD_SIZE_def)

lemma MAX_half: "MAX_DOWNLOAD_SIZE div 2 = 16777216"
  by (simp add: MAX_DOWNLOAD_SIZE_def)

lemma unat_double:
  assumes "c \<le> (16777216 :: size_t)"
  shows "unat (c * 2) = 2 * unat c"
proof -
  have "unat c \<le> 16777216" using assms by (simp add: word_le_nat_alt)
  then show ?thesis by (simp add: unat_word_ariths)
qed

lemma grow_capacity_terminates:
  assumes "nc \<noteq> 0"
  shows "\<exists>c. grow_capacity nc req = Some c \<and> (nc \<le> MAX_DOWNLOAD_SIZE \<longrightarrow> nc \<le> c) \<and>
             (req \<le> MAX_DOWNLOAD_SIZE \<longrightarrow> req \<le> c) \<and>
             (nc \<le> MAX_DOWNLOAD_SIZE \<longrightarrow> c \<le> MAX_DOWNLOAD_SIZE) \<and>
             (c = nc \<or> c = MAX_DOWNLOAD_SIZE \<or> (\<exists>k. c = nc * 2 ^ k \<and> unat c = unat nc * 2 ^ k))"
  using assms
proof (induction "33554433 - unat nc" arbitrary: nc rule: less_induct)
  case less
  show ?case
  proof (cases "nc < req")
    case False
    then show ?thesis by (subst grow_capacity.simps) auto
  next
    case True
    show ?thesis
    proof (cases "nc > MAX_DOWNLOAD_SIZE div 2")
      case big: True
      have "nc \<le> MAX_DOWNLOAD_SIZE \<or> MAX_DOWNLOAD_SIZE < nc" by auto
      then show ?thesis using True big
        apply (subst grow_capacity.simps)
        apply (auto simp add: MAX_half MAX_DOWNLOAD_SIZE_def word_le_nat_alt word_less_nat_alt)
        done
    next
      case small: False
      then have le: "nc \<le> 16777216" by (simp add: MAX_half not_less)
      have u: "unat (nc * 2) = 2 * unat nc" by (rule unat_double [OF le])
      have pos: "0 < unat nc" using less.prems by (simp add: unat_gt_0)
      have ule: "unat nc \<le> 16777216" using le by (simp add: word_le_nat_alt)
      have ne: "nc * 2 \<noteq> 0" using u pos by (metis mult_is_0 unat_0 zero_neq_numeral not_gr_zero)
      have dec: "33554433 - unat (nc * 2) < 33554433 - unat nc" using u pos ule by simp
      have le2: "nc * 2 \<le> MAX_DOWNLOAD_SIZE"
        using u ule by (simp add: word_le_nat_alt MAX_unat)
      from less.hyps [OF dec ne] obtain c where
        c: "grow_capacity (nc * 2) req = Some c" "nc * 2 \<le> MAX_DOWNLOAD_SIZE \<longrightarrow> nc * 2 \<le> c"
           "req \<le> MAX_DOWNLOAD_SIZE \<longrightarrow> req \<le> c"
           "nc * 2 \<le> MAX_DOWNLOAD_SIZE \<longrightarrow> c \<le> MAX_DOWNLOAD_SIZE"
           "c = nc * 2 \<or> c = MAX_DOWNLOAD_SIZE \<or> (\<exists>k. c = nc * 2 * 2 ^ k \<and> unat c = unat (nc * 2) * 2 ^ k)"
        by blast
      have g: "grow_capacity nc req = Some c"
        using True small c(1) by (subst grow_capacity.simps) simp
      have nc_le: "nc \<le> c" using c(2) le2 u by (simp add: word_le_nat_alt)
      have shape: "c = nc \<or> c = MAX_DOWNLOAD_SIZE \<or> (\<exists>k. c = nc * 2 ^ k \<and> unat c = unat nc * 2 ^ k)"
        using c(5)
      proof (elim disjE exE conjE)
        assume "c = nc * 2"
        then have "c = nc * 2 ^ 1 \<and> unat c = unat nc * 2 ^ 1" using u by simp
        then show ?thesis by blast
      next
        assume "c = MAX_DOWNLOAD_SIZE" then show ?thesis by simp
      next
        fix k assume "c = nc * 2 * 2 ^ k" "unat c = unat (nc * 2) * 2 ^ k"
        then have "c = nc * 2 ^ Suc k \<and> unat c = unat nc * 2 ^ Suc k" using u by simp
        then show ?thesis by blast
      qed
      from g nc_le c(3) c(4) le2 shape show ?thesis by blast
    qed
  qed
qed

lemma mb_ok_size: "mb_ok m \<Longrightarrow> unat (size_mb m) < 33554432"
  by (auto simp add: mb_ok_def MAX_DOWNLOAD_SIZE_def word_less_nat_alt word_le_nat_alt split: option.splits)

lemma unat_SIZE_MAX: "unat SIZE_MAX = 18446744073709551615"
  by (simp add: SIZE_MAX_def unsigned_minus_1_eq_mask mask_eq_exp_minus_1)

lemma overflow_check:
  assumes "unat (s :: size_t) < 33554432"
  shows "(r > SIZE_MAX - s - 1) \<longleftrightarrow> 18446744073709551616 \<le> unat s + unat r + 1"
proof -
  have "s \<le> SIZE_MAX" by (simp add: SIZE_MAX_def)
  then have a: "unat (SIZE_MAX - s) = 18446744073709551615 - unat s"
    by (simp add: unat_sub unat_SIZE_MAX)
  then have "unat (SIZE_MAX - s) \<noteq> 0" using assms by simp
  then have ne: "SIZE_MAX - s \<noteq> 0" by (metis unat_0)
  have "unat (SIZE_MAX - s - 1) = 18446744073709551614 - unat s"
    using unat_minus_one [OF ne] a by simp
  then show ?thesis using assms by (simp add: word_less_nat_alt) arith
qed

lemma required_unat:
  assumes "unat (s :: size_t) + unat r + 1 < 18446744073709551616"
  shows "unat (s + r + 1) = unat s + unat r + 1"
proof -
  have "unat s + unat r < 2 ^ LENGTH(64)" using assms by simp
  then have 1: "unat (s + r) = unat s + unat r" by (simp only: unat_add_lem)
  have "unat (s + r) + unat (1 :: size_t) < 2 ^ LENGTH(64)" using assms 1 by simp
  then have "unat (s + r + 1) = unat (s + r) + unat (1 :: size_t)" by (simp only: unat_add_lem)
  with 1 show ?thesis by simp
qed

lemma sum_unat:
  assumes "unat (s :: size_t) + unat r < 18446744073709551616"
  shows "unat (s + r) = unat s + unat r"
proof -
  have "unat s + unat r < 2 ^ LENGTH(64)" using assms by simp
  then show ?thesis by (simp only: unat_add_lem)
qed

lemma mb_ok_not_inconsistent: "mb_ok m \<Longrightarrow> \<not> (data m \<noteq> None \<and> capacity m = 0)"
  by (auto simp add: mb_ok_def split: option.splits)

lemma mb_ok_capacity: "mb_ok m \<Longrightarrow> capacity m \<le> MAX_DOWNLOAD_SIZE"
  by (auto simp add: mb_ok_def split: option.splits)

lemma next_capacity_props:
  assumes "mb_ok m" and "req \<le> MAX_DOWNLOAD_SIZE"
  shows "\<exists>nc. next_capacity m req = Some nc \<and> req \<le> nc \<and> nc \<le> MAX_DOWNLOAD_SIZE \<and> capacity m \<le> nc"
proof -
  let ?start = "if capacity m > 0 then capacity m else DEFAULT_MEMORY_PARSER_SIZE"
  have ne: "?start \<noteq> 0" by (auto simp add: DEFAULT_MEMORY_PARSER_SIZE_def word_greater_zero_iff)
  have le: "?start \<le> MAX_DOWNLOAD_SIZE"
    using mb_ok_capacity [OF assms(1)]
    by (simp add: DEFAULT_MEMORY_PARSER_SIZE_def MAX_DOWNLOAD_SIZE_def)
  have cap: "capacity m \<le> ?start" by (simp add: word_greater_zero_iff)
  from grow_capacity_terminates [OF ne, of req] obtain c where
    "grow_capacity ?start req = Some c" "?start \<le> MAX_DOWNLOAD_SIZE \<longrightarrow> ?start \<le> c"
    "req \<le> MAX_DOWNLOAD_SIZE \<longrightarrow> req \<le> c" "?start \<le> MAX_DOWNLOAD_SIZE \<longrightarrow> c \<le> MAX_DOWNLOAD_SIZE"
    by blast
  with le cap assms(2) show ?thesis
    unfolding next_capacity_def by (metis order_trans)
qed

lemma callback_unfold:
  assumes ok: "mb_ok m"
  shows "memory_write_callback contents sz nm (Some m) env =
     (if 33554432 < unat (size_mb m) + unat (sz * nm) + 1 then Some (0, Some m)
      else if unat (capacity m) < unat (size_mb m) + unat (sz * nm) + 1 then
        (case next_capacity m (size_mb m + sz * nm + 1) of
           None \<Rightarrow> None
         | Some nc \<Rightarrow>
             if free_mem env < nc then Some (0, Some m)
             else if \<not> realloc_ok env then Some (0, Some m)
             else store_chunk contents (sz * nm)
                    (m\<lparr>data := Some (realloc (data m) (capacity m) (fresh env)), capacity := nc\<rparr>))
      else store_chunk contents (sz * nm) m)"
proof -
  let ?S = "unat (size_mb m)" and ?R = "unat (sz * nm)"
  have S: "?S < 33554432" by (rule mb_ok_size [OF ok])
  have inc: "\<not> (data m \<noteq> None \<and> capacity m = 0)" by (rule mb_ok_not_inconsistent [OF ok])
  have ovf: "(sz * nm > SIZE_MAX - size_mb m - 1) \<longleftrightarrow> 18446744073709551616 \<le> ?S + ?R + 1"
    by (rule overflow_check [OF S])
  show ?thesis
  proof (cases "18446744073709551616 \<le> ?S + ?R + 1")
    case True
    then show ?thesis using inc ovf by (simp add: memory_write_callback_def Let_def)
  next
    case False
    then have lt: "?S + ?R + 1 < 18446744073709551616" by simp
    have req: "unat (size_mb m + sz * nm + 1) = ?S + ?R + 1" by (rule required_unat [OF lt])
    have big: "(size_mb m + sz * nm + 1 > MAX_DOWNLOAD_SIZE) \<longleftrightarrow> 33554432 < ?S + ?R + 1"
      by (simp add: word_less_nat_alt req MAX_unat)
    have grow: "(size_mb m + sz * nm + 1 > capacity m) \<longleftrightarrow> unat (capacity m) < ?S + ?R + 1"
      by (simp add: word_less_nat_alt req)
    have start: "(if capacity m > 0 then capacity m else DEFAULT_MEMORY_PARSER_SIZE) \<noteq> 0"
      by (auto simp add: DEFAULT_MEMORY_PARSER_SIZE_def word_greater_zero_iff)
    show ?thesis
      using inc ovf False big grow start
      by (auto simp add: memory_write_callback_def Let_def next_capacity_def
          simp del: word_greater_zero_iff)
  qed
qed

lemma store_chunk_result:
  assumes d: "data m = Some d"
    and len: "unat rs \<le> length contents"
    and fit: "unat (size_mb m) + unat rs + 1 \<le> unat (capacity m)"
    and cap: "capacity m \<le> MAX_DOWNLOAD_SIZE"
  shows "\<exists>m' d'. store_chunk contents rs m = Some (rs, Some m') \<and> data m' = Some d' \<and>
           capacity m' = capacity m \<and> size_mb m' = size_mb m + rs \<and>
           unat (size_mb m') = unat (size_mb m) + unat rs \<and> mb_ok m' \<and>
           d' (unat (size_mb m) + unat rs) = NUL \<and>
           (\<forall>i < unat rs. d' (unat (size_mb m) + i) = contents ! i) \<and>
           (\<forall>i < unat (size_mb m). d' i = d i)"
proof -
  let ?S = "unat (size_mb m)" and ?R = "unat rs"
  have capn: "unat (capacity m) \<le> 33554432"
    using cap by (simp add: word_le_nat_alt MAX_unat)
  have sum: "unat (size_mb m + rs) = ?S + ?R"
    using fit capn by (intro sum_unat) simp
  let ?copied = "\<lambda>i. if ?S \<le> i \<and> i < ?S + ?R then contents ! (i - ?S) else d i"
  let ?d' = "?copied(?S + ?R := NUL)"
  let ?m' = "m\<lparr>data := Some ?d', size_mb := size_mb m + rs\<rparr>"
  have st: "store_chunk contents rs m = Some (rs, Some ?m')"
    using d len by (simp add: store_chunk_def Let_def sum)
  have ok: "mb_ok ?m'"
    using fit cap sum by (simp add: mb_ok_def word_less_nat_alt)
  have "?d' (?S + ?R) = NUL" by simp
  moreover have "\<forall>i < ?R. ?d' (?S + i) = contents ! i" by simp
  moreover have "\<forall>i < ?S. ?d' i = d i" by simp
  ultimately show ?thesis using st ok sum by (intro exI [of _ ?m'] exI [of _ ?d']) simp
qed

lemma callback_accepted:
  assumes ok: "mb_ok m"
    and cb: "memory_write_callback contents sz nm (Some m) env = Some (written, Some m')"
    and w: "written = sz * nm"
    and d': "data m' = Some d'"
  shows "unat (size_mb m') = unat (size_mb m) + unat (sz * nm) \<and> mb_ok m' \<and>
         d' (unat (size_mb m')) = NUL \<and>
         (\<forall>i < unat (sz * nm). d' (unat (size_mb m) + i) = contents ! i) \<and>
         (\<forall>i < unat (size_mb m). \<forall>d. data m = Some d \<longrightarrow> d' i = d i)"
proof -
  let ?S = "unat (size_mb m)" and ?R = "unat (sz * nm)"
  note u = callback_unfold [OF ok, of contents sz nm env]
  have S: "?S < 33554432" by (rule mb_ok_size [OF ok])
  have R0: "sz * nm = 0 \<Longrightarrow> ?R = 0" by simp
  show ?thesis
  proof (cases "33554432 < ?S + ?R + 1")
    case True
    with u cb have "written = 0" by simp
    with w R0 True S show ?thesis by simp
  next
    case small: False
    show ?thesis
    proof (cases "unat (capacity m) < ?S + ?R + 1")
      case no_grow: False
      then have "capacity m \<noteq> 0" by (metis add_is_0 not_less0 One_nat_def not_less unat_0 zero_neq_one le_zero_eq)
      then obtain d where d: "data m = Some d"
        using ok by (cases "data m") (auto simp add: mb_ok_def)
      from store_chunk_result [OF d _ _ mb_ok_capacity [OF ok], of "sz * nm" contents]
      have "unat (sz * nm) \<le> length contents \<Longrightarrow>
        \<exists>m' d'. store_chunk contents (sz * nm) m = Some (sz * nm, Some m') \<and> data m' = Some d' \<and>
           capacity m' = capacity m \<and> size_mb m' = size_mb m + sz * nm \<and>
           unat (size_mb m') = ?S + ?R \<and> mb_ok m' \<and>
           d' (?S + ?R) = NUL \<and>
           (\<forall>i < ?R. d' (?S + i) = contents ! i) \<and>
           (\<forall>i < ?S. d' i = d i)"
        using no_grow by simp
      moreover have "store_chunk contents (sz * nm) m = Some (written, Some m')"
        using u cb small no_grow by simp
      moreover have "unat (sz * nm) \<le> length contents"
        using \<open>store_chunk contents (sz * nm) m = Some (written, Some m')\<close> d
        by (simp add: store_chunk_def split: if_splits)
      ultimately show ?thesis using d d' by auto
    next
      case grow: True
      have reqle: "size_mb m + sz * nm + 1 \<le> MAX_DOWNLOAD_SIZE"
      proof -
        have "unat (size_mb m + sz * nm + 1) = ?S + ?R + 1"
          using small by (intro required_unat) simp
        then show ?thesis using small by (simp add: word_le_nat_alt MAX_unat)
      qed
      have requ: "unat (size_mb m + sz * nm + 1) = ?S + ?R + 1"
        using small by (intro required_unat) simp
      from next_capacity_props [OF ok reqle] obtain nc where
        nc: "next_capacity m (size_mb m + sz * nm + 1) = Some nc"
            "size_mb m + sz * nm + 1 \<le> nc" "nc \<le> MAX_DOWNLOAD_SIZE" "capacity m \<le> nc"
        by blast
      let ?m1 = "m\<lparr>data := Some (realloc (data m) (capacity m) (fresh env)), capacity := nc\<rparr>"
      show ?thesis
      proof (cases "free_mem env < nc \<or> \<not> realloc_ok env")
        case True
        with u cb small grow nc(1) have r: "written = 0" "m' = m" by (auto split: if_splits)
        with w R0 have "?R = 0" by simp
        moreover from r d' ok have "?S < unat (capacity m)"
          by (simp add: mb_ok_def word_less_nat_alt)
        ultimately show ?thesis using grow by simp
      next
        case False
        then have sc: "store_chunk contents (sz * nm) ?m1 = Some (written, Some m')"
          using u cb small grow nc(1) by (auto split: if_splits)
        have d1: "data ?m1 = Some (realloc (data m) (capacity m) (fresh env))" by simp
        have len: "unat (sz * nm) \<le> length contents"
          using sc by (simp add: store_chunk_def split: if_splits)
        have fit: "unat (size_mb ?m1) + unat (sz * nm) + 1 \<le> unat (capacity ?m1)"
          using nc(2) requ by (simp add: word_le_nat_alt)
        have cap1: "capacity ?m1 \<le> MAX_DOWNLOAD_SIZE" using nc(3) by simp
        from store_chunk_result [OF d1 len fit cap1] sc d'
        have res: "unat (size_mb m') = ?S + ?R" "mb_ok m'" "d' (?S + ?R) = NUL"
          "\<forall>i < ?R. d' (?S + i) = contents ! i"
          "\<forall>i < ?S. d' i = realloc (data m) (capacity m) (fresh env) i"
          by auto
        have "\<forall>i < ?S. \<forall>d. data m = Some d \<longrightarrow> d' i = d i"
        proof (intro allI impI)
          fix i d assume i: "i < ?S" and d: "data m = Some d"
          then have "?S < unat (capacity m)" using ok by (simp add: mb_ok_def word_less_nat_alt)
          with i d res(5) show "d' i = d i" by (simp add: realloc_def)
        qed
        with res show ?thesis by simp
      qed
    qed
  qed
qed

lemma callback_cases:
  assumes ok: "mb_ok m"
    and cb: "memory_write_callback contents sz nm (Some m) env = Some (written, mp)"
  shows "(written = 0 \<and> mp = Some m) \<or> (written = sz * nm \<and> (\<exists>m' d'. mp = Some m' \<and> data m' = Some d'))"
proof -
  note u = callback_unfold [OF ok, of contents sz nm env]
  have sc: "\<And>m1. store_chunk contents (sz * nm) m1 = Some (written, mp) \<Longrightarrow>
      written = sz * nm \<and> (\<exists>m' d'. mp = Some m' \<and> data m' = Some d')"
    by (auto simp add: store_chunk_def Let_def split: option.splits if_splits)
  from u cb sc show ?thesis
    by (auto split: if_splits option.splits)
qed

lemma callback_defined:
  assumes ok: "mb_ok m" and len: "unat (sz * nm) \<le> length contents"
  shows "\<exists>written mp. memory_write_callback contents sz nm (Some m) env = Some (written, mp)"
proof -
  let ?S = "unat (size_mb m)" and ?R = "unat (sz * nm)"
  note u = callback_unfold [OF ok, of contents sz nm env]
  show ?thesis
  proof (cases "33554432 < ?S + ?R + 1")
    case True
    with u show ?thesis by simp
  next
    case small: False
    then have requ: "unat (size_mb m + sz * nm + 1) = ?S + ?R + 1"
      by (intro required_unat) simp
    then have reqle: "size_mb m + sz * nm + 1 \<le> MAX_DOWNLOAD_SIZE"
      using small by (simp add: word_le_nat_alt MAX_unat)
    show ?thesis
    proof (cases "unat (capacity m) < ?S + ?R + 1")
      case no_grow: False
      then have "capacity m \<noteq> 0"
        by (metis add_is_0 not_less0 One_nat_def not_less unat_0 zero_neq_one le_zero_eq)
      then obtain d where d: "data m = Some d"
        using ok by (cases "data m") (auto simp add: mb_ok_def)
      from store_chunk_result [OF d len _ mb_ok_capacity [OF ok]] no_grow
      obtain m' where "store_chunk contents (sz * nm) m = Some (sz * nm, Some m')" by auto
      with u small no_grow show ?thesis by simp
    next
      case grow: True
      from next_capacity_props [OF ok reqle] obtain nc where
        nc: "next_capacity m (size_mb m + sz * nm + 1) = Some nc"
            "size_mb m + sz * nm + 1 \<le> nc" "nc \<le> MAX_DOWNLOAD_SIZE"
        by blast
      let ?m1 = "m\<lparr>data := Some (realloc (data m) (capacity m) (fresh env)), capacity := nc\<rparr>"
      have d1: "data ?m1 = Some (realloc (data m) (capacity m) (fresh env))" by simp
      have fit: "unat (size_mb ?m1) + unat (sz * nm) + 1 \<le> unat (capacity ?m1)"
        using nc(2) requ by (simp add: word_le_nat_alt)
      have cap1: "capacity ?m1 \<le> MAX_DOWNLOAD_SIZE" using nc(3) by simp
      from store_chunk_result [OF d1 len fit cap1]
      obtain m' where "store_chunk contents (sz * nm) ?m1 = Some (sz * nm, Some m')" by auto
      with u small grow nc(1) show ?thesis by simp
    qed
  qed
qed

lemma unat_chunk_length:
  assumes "length c < 18446744073709551616"
  shows "unat (1 * (of_nat (length c) :: size_t)) = length c"
  using assms by (simp add: unat_of_nat)

lemma callback_step_holds:
  assumes h: "buf_holds m body"
    and len: "length c < 18446744073709551616"
    and cb: "memory_write_callback c 1 (of_nat (length c)) (Some m) env = Some (written, Some m')"
    and w: "written = of_nat (length c)"
  shows "buf_holds m' (body @ c)"
proof -
  have ok: "mb_ok m" and S: "unat (size_mb m) = length body" using h by (simp_all add: buf_holds_def)
  have R: "unat (1 * (of_nat (length c) :: size_t)) = length c" by (rule unat_chunk_length [OF len])
  from callback_cases [OF ok cb]
  show ?thesis
  proof
    assume "written = 0 \<and> Some m' = Some m"
    then have "written = 0" "m' = m" by simp_all
    with w have "unat (of_nat (length c) :: size_t) = 0" by simp
    with R have "c = []" by simp
    with h \<open>m' = m\<close> show ?thesis by simp
  next
    assume "written = 1 * of_nat (length c) \<and> (\<exists>m'a d'. Some m' = Some m'a \<and> data m'a = Some d')"
    then obtain d' where w1: "written = 1 * of_nat (length c)" and d': "data m' = Some d'" by auto
    from callback_accepted [OF ok cb w1 d'] S R
    have sz: "unat (size_mb m') = length body + length c" and ok': "mb_ok m'"
      and nul: "d' (length body + length c) = NUL"
      and new: "\<forall>i < length c. d' (length body + i) = c ! i"
      and old: "\<forall>i < length body. \<forall>d. data m = Some d \<longrightarrow> d' i = d i"
      by auto
    have "map d' [0..<length body + length c] = body @ c"
    proof (rule nth_equalityI)
      show "length (map d' [0..<length body + length c]) = length (body @ c)" by simp
    next
      fix i assume "i < length (map d' [0..<length body + length c])"
      then have i: "i < length body + length c" by simp
      show "map d' [0..<length body + length c] ! i = (body @ c) ! i"
      proof (cases "i < length body")
        case True
        then have "body \<noteq> []" by auto
        then obtain d where d: "data m = Some d" "map d [0..<length body] = body"
          using h by (cases "data m") (auto simp add: buf_holds_def)
        from d(2) True have "d i = body ! i" by (metis nth_map_upt add_0 diff_zero)
        with True d(1) old i show ?thesis by (simp add: nth_append)
      next
        case False
        then have "i = length body + (i - length body)" "i - length body < length c" using i by simp_all
        with new have "d' i = c ! (i - length body)" by metis
        with False i show ?thesis by (simp add: nth_append)
      qed
    qed
    with sz ok' nul d' show ?thesis by (simp add: buf_holds_def)
  qed
qed

lemma perform_holds:
  assumes "buf_holds m body"
    and "\<forall>c \<in> set (map fst ds). length c < 18446744073709551616"
    and "curl_easy_perform ds transfer m = Some (CURLE_OK, m')"
  shows "buf_holds m' (body @ concat (map fst ds))"
  using assms
proof (induction ds arbitrary: m body)
  case Nil
  then show ?case by simp
next
  case (Cons x ds)
  obtain c env where x: "x = (c, env)" by (cases x)
  from Cons.prems(3) x obtain written m1 where
    cb: "memory_write_callback c 1 (of_nat (length c)) (Some m) env = Some (written, Some m1)"
    and w: "written = of_nat (length c)"
    and rest: "curl_easy_perform ds transfer m1 = Some (CURLE_OK, m')"
    by (auto split: option.splits if_splits)
  have len: "length c < 18446744073709551616" using Cons.prems(2) x by simp
  have h1: "buf_holds m1 (body @ c)" by (rule callback_step_holds [OF Cons.prems(1) len cb w])
  have "buf_holds m' ((body @ c) @ concat (map fst ds))"
    using h1 Cons.prems(2) rest by (intro Cons.IH) simp_all
  then show ?case using x by simp
qed

lemma perform_defined:
  assumes "mb_ok m"
  shows "\<exists>rc m'. curl_easy_perform ds transfer m = Some (rc, m')"
  using assms
proof (induction ds arbitrary: m)
  case Nil
  then show ?case by simp
next
  case (Cons x ds)
  obtain c env where x: "x = (c, env)" by (cases x)
  have "unat (1 * (of_nat (length c) :: size_t)) \<le> length c"
    by (simp add: unat_of_nat)
  from callback_defined [OF Cons.prems this] obtain written mp where
    cb: "memory_write_callback c 1 (of_nat (length c)) (Some m) env = Some (written, mp)" by blast
  from callback_cases [OF Cons.prems cb] obtain m1 where m1: "mp = Some m1" "mb_ok m1 \<or> True"
    by auto
  have ok1: "written = of_nat (length c) \<Longrightarrow> mb_ok m1"
  proof -
    assume w: "written = of_nat (length c)"
    from callback_cases [OF Cons.prems cb] m1(1)
    show "mb_ok m1"
    proof (elim disjE conjE exE)
      assume "mp = Some m" then show ?thesis using m1(1) Cons.prems by simp
    next
      fix m'' d' assume a: "written = 1 * of_nat (length c)" "mp = Some m''" "data m'' = Some d'"
      with m1(1) have "data m1 = Some d'" by simp
      from callback_accepted [OF Cons.prems cb [unfolded m1(1)] a(1) this] show ?thesis by simp
    qed
  qed
  show ?case
  proof (cases "written = of_nat (length c)")
    case True
    from Cons.IH [OF ok1 [OF True]] obtain rc m' where
      "curl_easy_perform ds transfer m1 = Some (rc, m')" by blast
    with cb m1(1) True x show ?thesis by simp
  next
    case False
    with cb m1(1) x show ?thesis by simp
  qed
qed

lemma perform_short_write:
  assumes "curl_easy_perform pre CURLE_OK m0 = Some (CURLE_OK, m1)"
    and "memory_write_callback c 1 (of_nat (length c)) (Some m1) env = Some (written, Some m2)"
    and "written \<noteq> of_nat (length c)"
  shows "curl_easy_perform (pre @ (c, env) # post) transfer m0 = Some (CURLE_WRITE_ERROR, m2)"
  using assms
proof (induction pre arbitrary: m0)
  case Nil
  then show ?case by simp
next
  case (Cons x pre)
  obtain c0 env0 where x: "x = (c0, env0)" by (cases x)
  from Cons.prems(1) x obtain w0 ma where
    "memory_write_callback c0 1 (of_nat (length c0)) (Some m0) env0 = Some (w0, Some ma)"
    "w0 = of_nat (length c0)" "curl_easy_perform pre CURLE_OK ma = Some (CURLE_OK, m1)"
    by (auto split: option.splits if_splits)
  with Cons.IH [OF _ Cons.prems(2,3)] x show ?case by simp
qed

lemma mb_ok_empty: "mb_ok \<lparr>data = None, size_mb = 0, capacity = 0\<rparr>"
  by (simp add: mb_ok_def)

lemma buf_holds_empty: "buf_holds \<lparr>data = None, size_mb = 0, capacity = 0\<rparr> []"
  by (simp add: buf_holds_def mb_ok_def)


text \<open>
  A transfer that delivers no chunk never calls the callback: the block stays
  \<^verbatim>\<open>NULL\<close>, and \<^verbatim>\<open>download_html\<close> returns \<^verbatim>\<open>NULL\<close>, which its caller reports
  as a failed fetch.
\<close>

lemma download_html_no_delivery: "download_html curl_ok [] transfer = Some None"
  by (simp add: download_html_def)

lemma chunk_length_neq_0:
  assumes "c \<noteq> []" and "length c < 18446744073709551616"
  shows "(0 :: size_t) \<noteq> of_nat (length c)"
proof
  assume "(0 :: size_t) = of_nat (length c)"
  then have "unat (of_nat (length c) :: size_t) = 0" by simp
  then have "length c = 0" using assms(2) by (simp add: unat_of_nat)
  then show False using assms(1) by simp
qed

text \<open>
  Claim C6. For a buffer in a state that a fetch can reach: the write returns 0 and
  leaves the buffer as it is whenever \<open>size + chunk_len + 1\<close> overflows or exceeds the
  cap of 32 MiB, and whenever the free memory is below the capacity that the buffer has to
  grow to for this write; after every accepted write (the count returned is the length of
  the chunk and the buffer has a block) the byte after the valid region is NUL; whenever a
  write of a fetch returns a count different from the length of its chunk, and so
  whenever it returns 0 for the bytes it was given, \<^verbatim>\<open>download_html\<close> returns
  \<^verbatim>\<open>NULL\<close>, whatever the later chunks are; and a body that \<^verbatim>\<open>download_html\<close>
  returns holds all the chunks, NUL-terminated, so it is never a truncated body.
\<close>

theorem growable_buffer_contract:
  assumes "mb_ok m"
  shows
   "(18446744073709551616 \<le> unat (size_mb m) + unat (sz * nm) + 1 \<or>
     32 * 1024 * 1024 < unat (size_mb m) + unat (sz * nm) + 1 \<longrightarrow>
       memory_write_callback contents sz nm (Some m) env = Some (0, Some m)) \<and>
    (unat (capacity m) < unat (size_mb m) + unat (sz * nm) + 1 \<and>
     next_capacity m (size_mb m + sz * nm + 1) = Some nc \<and> free_mem env < nc \<longrightarrow>
       memory_write_callback contents sz nm (Some m) env = Some (0, Some m)) \<and>
    (memory_write_callback contents sz nm (Some m) env = Some (written, Some m') \<and>
     written = sz * nm \<and> data m' = Some d' \<longrightarrow>
       unat (size_mb m') = unat (size_mb m) + unat (sz * nm) \<and>
       d' (unat (size_mb m')) = NUL \<and> mb_ok m') \<and>
    (curl_easy_perform pre CURLE_OK \<lparr>data = None, size_mb = 0, capacity = 0\<rparr> = Some (CURLE_OK, m1) \<and>
     memory_write_callback c 1 (of_nat (length c)) (Some m1) env1 = Some (w1, Some m2) \<and>
     w1 \<noteq> of_nat (length c) \<longrightarrow>
       download_html True (pre @ (c, env1) # post) transfer = Some None) \<and>
    (curl_easy_perform pre CURLE_OK \<lparr>data = None, size_mb = 0, capacity = 0\<rparr> = Some (CURLE_OK, m1) \<and>
     c \<noteq> [] \<and> length c < 2 ^ 64 \<and>
     memory_write_callback c 1 (of_nat (length c)) (Some m1) env1 = Some (0, Some m2) \<longrightarrow>
       download_html True (pre @ (c, env1) # post) transfer = Some None) \<and>
    ((\<forall>c \<in> set (map fst ds). length c < 2 ^ 64) \<and>
     download_html curl_ok ds transfer = Some (Some body_ptr) \<longrightarrow>
       map body_ptr [0..<length (concat (map fst ds))] = concat (map fst ds) \<and>
       body_ptr (length (concat (map fst ds))) = NUL)"
proof (intro conjI impI)
  note u = callback_unfold [OF assms, of contents sz nm env]
  show "memory_write_callback contents sz nm (Some m) env = Some (0, Some m)"
    if "18446744073709551616 \<le> unat (size_mb m) + unat (sz * nm) + 1 \<or>
        32 * 1024 * 1024 < unat (size_mb m) + unat (sz * nm) + 1"
    using that u by auto
  show "memory_write_callback contents sz nm (Some m) env = Some (0, Some m)"
    if "unat (capacity m) < unat (size_mb m) + unat (sz * nm) + 1 \<and>
        next_capacity m (size_mb m + sz * nm + 1) = Some nc \<and> free_mem env < nc"
    using that u by auto
next
  assume a: "memory_write_callback contents sz nm (Some m) env = Some (written, Some m') \<and>
     written = sz * nm \<and> data m' = Some d'"
  then have cb: "memory_write_callback contents sz nm (Some m) env = Some (written, Some m')"
    and w: "written = sz * nm" and d: "data m' = Some d'" by simp_all
  note r = callback_accepted [OF assms cb w d]
  show "unat (size_mb m') = unat (size_mb m) + unat (sz * nm)" using r by blast
  show "d' (unat (size_mb m')) = NUL" using r by blast
  show "mb_ok m'" using r by blast
next
  assume a: "curl_easy_perform pre CURLE_OK \<lparr>data = None, size_mb = 0, capacity = 0\<rparr> = Some (CURLE_OK, m1) \<and>
     memory_write_callback c 1 (of_nat (length c)) (Some m1) env1 = Some (w1, Some m2) \<and>
     w1 \<noteq> of_nat (length c)"
  then have a1: "curl_easy_perform pre CURLE_OK \<lparr>data = None, size_mb = 0, capacity = 0\<rparr> = Some (CURLE_OK, m1)"
    and a2: "memory_write_callback c 1 (of_nat (length c)) (Some m1) env1 = Some (w1, Some m2)"
    and a3: "w1 \<noteq> of_nat (length c)" by simp_all
  have "curl_easy_perform (pre @ (c, env1) # post) transfer \<lparr>data = None, size_mb = 0, capacity = 0\<rparr>
      = Some (CURLE_WRITE_ERROR, m2)"
    by (rule perform_short_write [OF a1 a2 a3])
  then show "download_html True (pre @ (c, env1) # post) transfer = Some None"
    by (simp add: download_html_def)
next
  assume a: "curl_easy_perform pre CURLE_OK \<lparr>data = None, size_mb = 0, capacity = 0\<rparr> = Some (CURLE_OK, m1) \<and>
     c \<noteq> [] \<and> length c < 2 ^ 64 \<and>
     memory_write_callback c 1 (of_nat (length c)) (Some m1) env1 = Some (0, Some m2)"
  then have a1: "curl_easy_perform pre CURLE_OK \<lparr>data = None, size_mb = 0, capacity = 0\<rparr> = Some (CURLE_OK, m1)"
    and a2: "memory_write_callback c 1 (of_nat (length c)) (Some m1) env1 = Some (0, Some m2)"
    and ne: "c \<noteq> []" and len: "length c < 18446744073709551616" by simp_all
  have a3: "(0 :: size_t) \<noteq> of_nat (length c)" by (rule chunk_length_neq_0 [OF ne len])
  have "curl_easy_perform (pre @ (c, env1) # post) transfer \<lparr>data = None, size_mb = 0, capacity = 0\<rparr>
      = Some (CURLE_WRITE_ERROR, m2)"
    by (rule perform_short_write [OF a1 a2 a3])
  then show "download_html True (pre @ (c, env1) # post) transfer = Some None"
    by (simp add: download_html_def)
next
  assume a: "(\<forall>c \<in> set (map fst ds). length c < 2 ^ 64) \<and>
     download_html curl_ok ds transfer = Some (Some body_ptr)"
  then have len: "\<forall>c \<in> set (map fst ds). length c < 18446744073709551616" by simp
  from a obtain chunk where
    p: "curl_easy_perform ds transfer \<lparr>data = None, size_mb = 0, capacity = 0\<rparr> = Some (CURLE_OK, chunk)"
    and b: "data chunk = Some body_ptr"
    by (auto simp add: download_html_def split: if_splits option.splits)
  from perform_holds [OF buf_holds_empty len p] b
  show "map body_ptr [0..<length (concat (map fst ds))] = concat (map fst ds)"
    and "body_ptr (length (concat (map fst ds))) = NUL"
    by (simp_all add: buf_holds_def)
qed

theorem growable_buffer_contract_witness:
  "memory_write_callback [] 1 33554432 (Some \<lparr>data = None, size_mb = 0, capacity = 0\<rparr>)
     enough_memory = Some (0, Some \<lparr>data = None, size_mb = 0, capacity = 0\<rparr>) \<and>
   memory_write_callback ''abc'' 1 3 (Some \<lparr>data = None, size_mb = 0, capacity = 0\<rparr>)
     low_memory = Some (0, Some \<lparr>data = None, size_mb = 0, capacity = 0\<rparr>) \<and>
   (\<exists>m' d'. memory_write_callback ''abc'' 1 3 (Some \<lparr>data = None, size_mb = 0, capacity = 0\<rparr>)
        enough_memory = Some (3, Some m') \<and>
      data m' = Some d' \<and> unat (size_mb m') = 3 \<and> d' 3 = NUL) \<and>
   download_html True [(''abc'', low_memory)] CURLE_OK = Some None \<and>
   download_html True [(''abc'', low_memory), (''def'', enough_memory)] CURLE_OK = Some None \<and>
   (\<exists>p. download_html True [(''abc'', enough_memory)] CURLE_OK = Some (Some p) \<and>
      map p [0..<3] = ''abc'' \<and> p 3 = NUL)"
proof -
  let ?m0 = "\<lparr>data = None, size_mb = 0, capacity = 0\<rparr>"
  note defs = memory_write_callback_def enough_memory_def low_memory_def SIZE_MAX_def
      MAX_DOWNLOAD_SIZE_def DEFAULT_MEMORY_PARSER_SIZE_def grow_capacity.simps store_chunk_def
      Let_def next_capacity_def
  note T = growable_buffer_contract [OF mb_ok_empty]
  have p1: "memory_write_callback [] 1 33554432 (Some ?m0) enough_memory = Some (0, Some ?m0)"
    using T [where sz = 1 and nm = 33554432 and contents = "[]" and env = enough_memory,
        THEN conjunct1]
    by simp
  have nc: "next_capacity ?m0 (size_mb ?m0 + 1 * 3 + 1) = Some 131072"
    by (simp add: defs)
  have p2: "memory_write_callback ''abc'' 1 3 (Some ?m0) low_memory = Some (0, Some ?m0)"
    using T [where sz = 1 and nm = 3 and contents = "''abc''" and env = low_memory
        and nc = 131072, THEN conjunct2, THEN conjunct1] nc
    by (simp add: low_memory_def)
  have "\<exists>m' d'. memory_write_callback ''abc'' 1 3 (Some ?m0) enough_memory = Some (3, Some m')
      \<and> data m' = Some d'"
    by (simp add: defs)
  then obtain m' d' where
    cb: "memory_write_callback ''abc'' 1 3 (Some ?m0) enough_memory = Some (3, Some m')"
    and d: "data m' = Some d'" by (elim exE conjE)
  have r3: "unat (size_mb m') = 3 \<and> d' 3 = NUL"
    using T [where sz = 1 and nm = 3 and contents = "''abc''" and env = enough_memory
        and written = 3 and m' = m' and d' = d',
        THEN conjunct2, THEN conjunct2, THEN conjunct1] cb d
    by auto
  have p3: "\<exists>m' d'. memory_write_callback ''abc'' 1 3 (Some ?m0) enough_memory
        = Some (3, Some m') \<and> data m' = Some d' \<and> unat (size_mb m') = 3 \<and> d' 3 = NUL"
    by (rule exI [of _ m'], rule exI [of _ d']) (rule conjI [OF cb conjI [OF d r3]])
  have p4: "download_html True [(''abc'', low_memory)] CURLE_OK = Some None"
    using T [where pre = "[]" and ?m1.0 = ?m0 and c = "''abc''" and ?env1.0 = low_memory
        and ?w1.0 = 0 and ?m2.0 = ?m0 and post = "[]" and transfer = CURLE_OK,
        THEN conjunct2, THEN conjunct2, THEN conjunct2, THEN conjunct1] p2
    by simp
  have p4b: "download_html True [(''abc'', low_memory), (''def'', enough_memory)] CURLE_OK
      = Some None"
    using T [where pre = "[]" and ?m1.0 = ?m0 and c = "''abc''" and ?env1.0 = low_memory
        and ?m2.0 = ?m0 and post = "[(''def'', enough_memory)]" and transfer = CURLE_OK,
        THEN conjunct2, THEN conjunct2, THEN conjunct2, THEN conjunct2, THEN conjunct1] p2
    by simp
  have "\<exists>p. download_html True [(''abc'', enough_memory)] CURLE_OK = Some (Some p)"
    by (simp add: download_html_def defs)
  then obtain p where dl: "download_html True [(''abc'', enough_memory)] CURLE_OK = Some (Some p)"
    by (elim exE)
  have r5: "map p [0..<3] = ''abc'' \<and> p 3 = NUL"
    using T [where ds = "[(''abc'', enough_memory)]" and curl_ok = True and transfer = CURLE_OK
        and body_ptr = p,
        THEN conjunct2, THEN conjunct2, THEN conjunct2, THEN conjunct2, THEN conjunct2] dl
    by (simp add: numeral_3_eq_3)
  have p5: "\<exists>p. download_html True [(''abc'', enough_memory)] CURLE_OK = Some (Some p) \<and>
      map p [0..<3] = ''abc'' \<and> p 3 = NUL"
    by (rule exI [of _ p]) (rule conjI [OF dl r5])
  show ?thesis
    by (rule conjI [OF p1 conjI [OF p2 conjI [OF p3 conjI [OF p4 conjI [OF p4b p5]]]]])
qed

text \<open>
  A fetch always returns: the callback never reaches a state without a defined result.
\<close>

lemma download_html_returns:
  "\<exists>r. download_html curl_ok ds transfer = Some r"
  using perform_defined [OF mb_ok_empty, of ds transfer]
  by (auto simp add: download_html_def)

text \<open>
  The parts of claim C7 that hold: the tier that \<^verbatim>\<open>detect_initial_capacity\<close> selects
  (\<open>detect_initial_capacity_tiers\<close>), and the growth of the capacity
  (\<open>grow_capacity_terminates\<close>: from a capacity other than 0 the loop ends, with the
  capacity doubled some number of times or set to the cap, at least the required size
  when that is within the cap).
\<close>

lemma detect_initial_capacity_tiers:
  "detect_initial_capacity total_ram =
     (if unat total_ram = 0 then 128 * 1024
      else if unat total_ram < 128 * 1024 * 1024 then 16 * 1024
      else if unat total_ram < 512 * 1024 * 1024 then 64 * 1024
      else 256 * 1024)"
  by (simp add: detect_initial_capacity_def DEFAULT_MEMORY_PARSER_SIZE_def
      LOW_CAPACITY_PARSER_RAM_KB_def MID_CAPACITY_PARSER_RAM_KB_def
      HIGH_CAPACITY_PARSER_RAM_KB_def word_less_nat_alt unat_eq_0)

text \<open>
  Claim C7. The claim says that the capacity of the fetch buffer starts at the tier
  selected from the total RAM. The tier is computed and stored in \<^verbatim>\<open>parser_buffer\<close>,
  which no fetch uses: \<^verbatim>\<open>download_html\<close> starts from a local block of capacity 0, and
  the callback then starts from \<^verbatim>\<open>DEFAULT_MEMORY_PARSER_SIZE\<close>. On a system with 64 MiB
  of RAM the tier is 16 KiB, and the first write of a fetch gives the buffer a capacity of
  128 KiB.
\<close>

theorem fetch_buffer_ignores_ram_tier:
  "detect_initial_capacity (64 * 1024 * 1024) = 16 * 1024 \<and>
   map_option (capacity \<circ> snd)
      (curl_easy_perform [(''a'', enough_memory)] CURLE_OK \<lparr>data = None, size_mb = 0, capacity = 0\<rparr>)
     = Some (128 * 1024)"
  by (simp add: detect_initial_capacity_def LOW_CAPACITY_PARSER_RAM_KB_def
      memory_write_callback_def enough_memory_def SIZE_MAX_def
      MAX_DOWNLOAD_SIZE_def DEFAULT_MEMORY_PARSER_SIZE_def grow_capacity.simps store_chunk_def
      Let_def)

section \<open>Properties of the result list and of the parsers\<close>

lemma sanitize_no_US: "US \<notin> set (sanitize_string s)"
  by (auto simp add: sanitize_string_def)

lemma entry_url_entry: "US \<notin> set t \<Longrightarrow> entry_url (t @ US # u) = u"
  by (simp add: entry_url_def split_entry)

lemma add_link_duplicate:
  "base_url @ sanitize_string href \<in> link_set st \<Longrightarrow> add_link st title base_url href = st"
  by (simp add: add_link_def Let_def)

lemma add_link_limit:
  "recipe_result_total st \<ge> MAX_RESULTS \<Longrightarrow> add_link st title base_url href = st"
  by (simp add: add_link_def)

lemma add_link_idem:
  "add_link (add_link st title base_url href) title base_url href = add_link st title base_url href"
  by (simp add: add_link_def Let_def)

lemma add_link_inv:
  assumes "link_inv st"
  shows "link_inv (add_link st title base_url href)"
proof -
  let ?e = "sanitize_string (capitalize_each_word (take 511 title)) @ US # (base_url @ sanitize_string href)"
  have u: "entry_url ?e = base_url @ sanitize_string href"
    by (rule entry_url_entry [OF sanitize_no_US])
  show ?thesis using assms u
    by (auto simp add: add_link_def Let_def link_inv_def)
qed

lemma add_link_total_le:
  "recipe_result_total st \<le> MAX_RESULTS \<Longrightarrow>
   recipe_result_total (add_link st title base_url href) \<le> MAX_RESULTS"
  by (simp add: add_link_def Let_def)

lemma link_inv_fresh: "link_inv \<lparr>out = [], link_set = {}, recipe_result_total = 0\<rparr>"
  by (simp add: link_inv_def)

lemma add_links_inv: "link_inv st \<Longrightarrow> link_inv (add_links calls st)"
  by (induction calls st rule: add_links.induct) (simp_all add: add_link_inv)

lemma add_links_total_le:
  "recipe_result_total st \<le> MAX_RESULTS \<Longrightarrow> recipe_result_total (add_links calls st) \<le> MAX_RESULTS"
  by (induction calls st rule: add_links.induct) (simp_all add: add_link_total_le)

lemma add_links_capped:
  "length (out (add_links calls \<lparr>out = [], link_set = {}, recipe_result_total = 0\<rparr>)) \<le> 50"
proof -
  let ?st = "add_links calls \<lparr>out = [], link_set = {}, recipe_result_total = 0\<rparr>"
  have "link_inv ?st" by (rule add_links_inv [OF link_inv_fresh])
  moreover have "recipe_result_total ?st \<le> MAX_RESULTS"
    by (rule add_links_total_le) (simp add: MAX_RESULTS_def)
  ultimately show ?thesis by (simp add: link_inv_def MAX_RESULTS_def)
qed

lemma show_results_loop_length:
  "length (show_results_loop qs qp pst links) \<le> length links"
  by (induction links) (auto split: option.splits)

lemma show_results_length: "length (show_results links q qs) \<le> length links"
  by (simp add: show_results_def Let_def show_results_loop_length)

lemma search_thread_func_reset:
  "search_thread_func table inp n = search_thread_func table inp 0"
  by (simp add: search_thread_func_def)

lemma fold_inv:
  assumes "\<And>x st. x \<in> set xs \<Longrightarrow> link_inv st \<Longrightarrow> link_inv (f x st)"
    and "link_inv st"
  shows "link_inv (fold f xs st)"
  using assms by (induction xs arbitrary: st) simp_all

lemma search_for_saveur_links_inv:
  "link_inv st \<Longrightarrow> link_inv (search_for_saveur_links slug_after_block node st)"
proof (induction slug_after_block node st rule: search_for_saveur_links.induct)
  case (1 slug_after_block tag attributes children st)
  let ?st1 = "(if tag = GUMBO_TAG_A then
           (case map_of attributes ''href'' of
              None \<Rightarrow> st
            | Some url \<Rightarrow>
                if strstr url ''/recipe/'' \<or> strstr url ''/article/'' then
                  (let title = saveur_title slug_after_block
                                 (GUMBO_NODE_ELEMENT tag attributes children) url
                   in if strstr url ''https://'' \<or> strstr url ''http://''
                      then add_link st title [] url
                      else add_link st title [] (take 1023 (''https://www.saveur.com'' @ url)))
                else st)
         else st)"
  have inv1: "link_inv ?st1"
    using "1.prems" by (auto simp add: Let_def add_link_inv split: option.splits)
  have "link_inv (fold (search_for_saveur_links slug_after_block) children ?st1)"
  proof (rule fold_inv [OF _ inv1])
    fix x st' assume "x \<in> set children" "link_inv st'"
    then show "link_inv (search_for_saveur_links slug_after_block x st')"
      using "1.IH" [OF refl] by blast
  qed
  then show ?case by (simp add: Let_def)
qed simp_all

lemma link_inv_empty: "link_inv st \<Longrightarrow> out st = [] \<Longrightarrow> link_set st = {} \<and> recipe_result_total st = 0"
  by (simp add: link_inv_def)

lemma parse_saveur_fallback_once:
  assumes "link_inv st" and "out st = []"
    and "curl_init_ok fetch" and "res fetch = CURLE_OK" and "html fetch = Some h" and "h \<noteq> []"
    and "out (search_for_saveur_links (slug_read fetch) (gumbo_root fetch) st) = []"
  shows "out (parse_saveur fetch st search_term) =
     [sanitize_string (capitalize_each_word (take 511 (take 255
         (''Search Saveur.com for '' @ (if search_term \<noteq> [] then search_term else ''chicken'')
            @ '' recipes''))))
      @ US # sanitize_string (take 1023 (''https://www.saveur.com/search/''
         @ url_encode (if search_term \<noteq> [] then search_term else ''chicken'')))]"
proof -
  let ?st1 = "search_for_saveur_links (slug_read fetch) (gumbo_root fetch) st"
  have "link_inv ?st1" by (rule search_for_saveur_links_inv [OF assms(1)])
  from link_inv_empty [OF this assms(7)] have e: "link_set ?st1 = {}" "recipe_result_total ?st1 = 0"
    by simp_all
  show ?thesis
    using assms(3-7) e
    by (simp add: parse_saveur_def Let_def add_link_def MAX_RESULTS_def)
qed

text \<open>
  Claim C4. Adding a candidate whose full URL is already in the set of the search
  changes nothing (neither the list, nor the set, nor the counter), so adding the same
  candidate twice is the same as adding it once; and in the list built by any sequence of
  calls of \<^verbatim>\<open>add_link\<close> from the empty state of a new search, no two entries have the
  same URL, the set holding exactly the URLs of the list.
\<close>

theorem add_link_deduplicates:
  "(base_url @ sanitize_string href \<in> link_set st \<longrightarrow> add_link st title base_url href = st) \<and>
   add_link (add_link st title base_url href) title base_url href
     = add_link st title base_url href \<and>
   distinct (map entry_url
     (out (add_links calls \<lparr>out = [], link_set = {}, recipe_result_total = 0\<rparr>))) \<and>
   link_set (add_links calls \<lparr>out = [], link_set = {}, recipe_result_total = 0\<rparr>)
     = set (map entry_url
         (out (add_links calls \<lparr>out = [], link_set = {}, recipe_result_total = 0\<rparr>)))"
  using add_links_inv [OF link_inv_fresh, of calls]
  by (simp add: add_link_duplicate add_link_idem link_inv_def)

theorem add_link_deduplicates_witness:
  "add_link \<lparr>out = [''Soup'' @ US # ''https://a.example/1''],
             link_set = {''https://a.example/1''}, recipe_result_total = 1\<rparr>
      ''soup again'' [] ''https://a.example/1''
     = \<lparr>out = [''Soup'' @ US # ''https://a.example/1''],
        link_set = {''https://a.example/1''}, recipe_result_total = 1\<rparr> \<and>
   distinct (map entry_url (out (add_links
      [(''soup'', [], ''https://a.example/1''), (''soup again'', [], ''https://a.example/1''),
       (''stew'', [], ''https://a.example/2'')]
      \<lparr>out = [], link_set = {}, recipe_result_total = 0\<rparr>)))"
proof -
  have h: "[] @ sanitize_string ''https://a.example/1''
      \<in> link_set \<lparr>out = [''Soup'' @ US # ''https://a.example/1''],
             link_set = {''https://a.example/1''}, recipe_result_total = 1\<rparr>"
    by (simp add: sanitize_string_def)
  show ?thesis
    using h add_link_deduplicates [of "[]" "''https://a.example/1''"
        "\<lparr>out = [''Soup'' @ US # ''https://a.example/1''],
             link_set = {''https://a.example/1''}, recipe_result_total = 1\<rparr>"
        "''soup again''"
        "[(''soup'', [], ''https://a.example/1''), (''soup again'', [], ''https://a.example/1''),
       (''stew'', [], ''https://a.example/2'')]"]
    by (simp only:)
qed

lemma search_thread_func_page_fetched:
  "snd (search_thread_func
      [\<lparr>site_name = name, parse_site = Some parse, url_pattern = (prefix, suffix)\<rparr>]
      page_fetched n)
   = \<lparr>results = out (parse GUMBO_NODE_OTHER \<lparr>out = [], link_set = {}, recipe_result_total = 0\<rparr>
         ''chili''),
      status_message = None, success = True, search_url = Some (prefix @ ''chili'' @ suffix)\<rparr>"
  by (simp add: search_thread_func_def page_fetched_def
      download_html_def memory_write_callback_def enough_memory_def SIZE_MAX_def
      MAX_DOWNLOAD_SIZE_def DEFAULT_MEMORY_PARSER_SIZE_def grow_capacity.simps store_chunk_def
      Let_def)

text \<open>
  Claim C3. The claim says that a parser invocation that yields no real candidate
  appends exactly one fallback candidate. \<^verbatim>\<open>parse_saveur\<close> does so when the page was
  fetched and holds no link (\<open>parse_saveur_fallback_once\<close>), but it returns early,
  appending nothing, when the fetch fails: the search then ends with the success flag set
  and an empty list.
\<close>

theorem parse_saveur_fetch_failure_no_fallback:
  "out (parse_saveur
      \<lparr>curl_init_ok = True, res = CURLE_OTHER_ERROR, html = Some [], gumbo_root = GUMBO_NODE_OTHER,
       slug_read = (\<lambda>url slug. slug)\<rparr>
      \<lparr>out = [], link_set = {}, recipe_result_total = 0\<rparr> ''chili'') = [] \<and>
   snd (search_thread_func
      [saveur_site \<lparr>curl_init_ok = True, res = CURLE_OTHER_ERROR, html = Some [],
          gumbo_root = GUMBO_NODE_OTHER, slug_read = (\<lambda>url slug. slug)\<rparr>] page_fetched 0)
     = \<lparr>results = [], status_message = None, success = True,
        search_url = Some ''https://www.saveur.com/search/chili/''\<rparr>"
  by (simp add: saveur_site_def search_thread_func_page_fetched parse_saveur_def)

lemma nyt_items_all_added:
  "\<forall>k < n. ''https://cooking.nytimes.com'' @ ''/recipes/'' @ replicate k (CHR ''x'') \<notin> link_set st \<Longrightarrow>
   length (out (fold (nyt_item after_free) (numbered_recipes n) st)) = length (out st) + n"
proof (induction n arbitrary: st)
  case 0
  then show ?case by simp
next
  case (Suc n)
  let ?u = "''https://cooking.nytimes.com'' @ ''/recipes/'' @ replicate n (CHR ''x'')"
  let ?st1 = "st\<lparr>out := after_free (''Recipe'' @ US # ?u) # out st,
      link_set := insert ?u (link_set st)\<rparr>"
  have new: "?u \<notin> link_set st" using Suc.prems by blast
  then have step: "nyt_item after_free
      (Some ''Recipe'', Some (''/recipes/'' @ replicate n (CHR ''x''))) st = ?st1"
    by (simp add: nyt_item_def Let_def)
  have "\<forall>k < n. ''https://cooking.nytimes.com'' @ ''/recipes/'' @ replicate k (CHR ''x'') \<notin> link_set ?st1"
  proof (intro allI impI)
    fix k assume k: "k < n"
    then have "replicate k (CHR ''x'') \<noteq> replicate n (CHR ''x'')"
      by (metis length_replicate less_irrefl_nat)
    moreover have "''https://cooking.nytimes.com'' @ ''/recipes/'' @ replicate k (CHR ''x'') \<notin> link_set st"
      using Suc.prems k by simp
    ultimately show "''https://cooking.nytimes.com'' @ ''/recipes/'' @ replicate k (CHR ''x'') \<notin> link_set ?st1"
      by simp
  qed
  from Suc.IH [OF this] step show ?case by simp
qed

text \<open>
  Claim C5. The claim says that no search adds more than 50 candidates. The limit is
  enforced by \<^verbatim>\<open>add_link\<close> (\<open>add_links_capped\<close>), the counter is reset when a search
  starts (\<open>search_thread_func_reset\<close>) and ranking never adds a result
  (\<open>show_results_length\<close>); but \<^verbatim>\<open>parse_nyt\<close> stores its entries without
  \<^verbatim>\<open>add_link\<close> and without looking at the counter: when the scraper returns 51
  recipes, the search returns 51 candidates. The number of cells does not depend on what
  is read from the released entries (\<open>nyt_items_all_added\<close>).
\<close>

theorem nyt_search_exceeds_limit:
  "length (results (snd (search_thread_func
      [nyt_site \<lparr>popen_ok = True, output_len = 4096, exit_status = 0,
          parsed_json = Some (numbered_recipes 51), freed_entry = (\<lambda>entry. entry)\<rparr>]
      page_fetched 0))) = 51"
proof -
  have "length (out (fold (nyt_item (\<lambda>entry. entry)) (numbered_recipes 51)
          \<lparr>out = [], link_set = {}, recipe_result_total = 0\<rparr>)) = 0 + 51"
    using nyt_items_all_added [of 51 "\<lparr>out = [], link_set = {}, recipe_result_total = 0\<rparr>"
        "\<lambda>entry. entry"]
    by simp
  then have "length (out (parse_nyt \<lparr>popen_ok = True, output_len = 4096, exit_status = 0,
          parsed_json = Some (numbered_recipes 51), freed_entry = (\<lambda>entry. entry)\<rparr>
          \<lparr>out = [], link_set = {}, recipe_result_total = 0\<rparr> ''chili'')) = 51"
    by (auto simp add: parse_nyt_def Let_def)
  then show ?thesis
    by (simp add: nyt_site_def search_thread_func_page_fetched)
qed

end
